theory Spec2Isabelle
  imports Main "HOL-Library.Word" "HOL-Library.Multiset"
begin

unbundle bit_operations_syntax

section \<open>Machine types\<close>

text \<open>
  \<^verbatim>\<open>uint32_t\<close> is a 32-bit word: \<open>+\<close> wraps around, as unsigned arithmetic does in C++.
  \<^verbatim>\<open>strings::UniChar\<close> is a 32-bit code point and \<^verbatim>\<open>strings::UniString\<close> a sequence of them.
  A pointer/size pair \<^verbatim>\<open>(sA, sizeA)\<close> is the list of the \<^verbatim>\<open>sizeA\<close> characters that start at
  \<^verbatim>\<open>sA\<close>; its size is the length of the list.
\<close>

type_synonym u32 = "32 word"
type_synonym UniChar = "32 word"
type_synonym UniString = "UniChar list"

section \<open>Keyword and prefix match costs (query.cpp, lines 26-60)\<close>

text \<open>
  Both match functions share the loop
  \<^verbatim>\<open>while (sA != endA) if (*sA++ != *sB++) return maxCost + 1; return 0;\<close>
  It reads one character of B for every character of A. \<open>None\<close> stands for a read past
  the end of B, which the size tests of the two callers exclude.
\<close>

fun match_loop :: "UniString \<Rightarrow> UniString \<Rightarrow> u32 \<Rightarrow> u32 option" where
  "match_loop [] sB maxCost = Some 0"
| "match_loop (a # sA) [] maxCost = None"
| "match_loop (a # sA) (b # sB) maxCost =
     (if a \<noteq> b then Some (maxCost + 1) else match_loop sA sB maxCost)"

definition KeywordMatch :: "UniString \<Rightarrow> UniString \<Rightarrow> u32 \<Rightarrow> u32 option" where
  "KeywordMatch sA sB maxCost =
     (if length sA \<noteq> length sB then Some (maxCost + 1) else match_loop sA sB maxCost)"

definition PrefixMatch :: "UniString \<Rightarrow> UniString \<Rightarrow> u32 \<Rightarrow> u32 option" where
  "PrefixMatch sA sB maxCost =
     (if length sA > length sB then Some (maxCost + 1) else match_loop sA sB maxCost)"

definition GetMaxKeywordMatchScore :: u32 where
  "GetMaxKeywordMatchScore = 512"

text \<open>The argument is a C++ \<^verbatim>\<open>int\<close>; the function only compares it.\<close>

definition GetMaxPrefixMatchScore :: "int \<Rightarrow> u32" where
  "GetMaxPrefixMatchScore sz =
     (if sz < 3 then 1 else if sz < 6 then 256 else 512)"

section \<open>Data model\<close>

text \<open>
  The headers of the query, of the features, of the intermediate results and of the
  category dictionary are not among the sources. The records below hold the members that
  query.cpp reads and writes, under the names it uses.
\<close>

text \<open>
  A feature of the spatial index, as far as \<^verbatim>\<open>FeatureProcessor\<close> looks at it: the type codes
  \<^verbatim>\<open>ForEachTypeRef\<close> yields, its names, and the pair that
  \<^verbatim>\<open>feature::DrawableScaleRangeForText\<close> returns for it.
\<close>

record Feature =
  f_types :: "u32 list"
  f_names :: "string list"
  f_textScaleRange :: "int \<times> int"

text \<open>
  What query.cpp reads from a \<^verbatim>\<open>KeywordMatcher\<close> once names have been fed to it
  (\<^verbatim>\<open>GetPrefixMatchScore\<close>, \<^verbatim>\<open>GetMatchScore\<close>, \<^verbatim>\<open>GetBestMatchName\<close>).
\<close>

record KeywordMatcher =
  PrefixMatchScore :: u32
  MatchScore :: u32
  BestMatchName :: string

text \<open>
  Modelled from the spec: \<^verbatim>\<open>IntermediateResult\<close> (intermediate_result.hpp) is not among the
  sources. Section 3 of the spec: "a candidate entity plus its score and a
  drawable-detail-level hint; ordered by cost (ascending = better)". The completion string
  is the second argument of the constructor the category phase calls.
\<close>

record IntermediateResult =
  m_str :: string
  m_completionString :: string
  m_matchPenalty :: int
  m_minVisibleScale :: int

text \<open>
  Modelled from the spec: \<^verbatim>\<open>IntermediateResult::operator<\<close> is not among the sources;
  results are "ordered by cost (ascending = better)", so \<open>a < b\<close> compares the costs.
\<close>

definition less_IR :: "IntermediateResult \<Rightarrow> IntermediateResult \<Rightarrow> bool" where
  "less_IR a b = (m_matchPenalty a < m_matchPenalty b)"

text \<open>The two constructors of \<^verbatim>\<open>IntermediateResult\<close> that query.cpp calls with values it computes.\<close>

definition IntermediateResult_feature ::
    "Feature \<Rightarrow> string \<Rightarrow> u32 \<Rightarrow> int \<Rightarrow> IntermediateResult" where
  "IntermediateResult_feature feature name matchScore minScale =
     \<lparr>m_str = name, m_completionString = [], m_matchPenalty = uint matchScore,
      m_minVisibleScale = minScale\<rparr>"

definition IntermediateResult_suggestion :: "string \<Rightarrow> string \<Rightarrow> int \<Rightarrow> IntermediateResult" where
  "IntermediateResult_suggestion name completionString penalty =
     \<lparr>m_str = name, m_completionString = completionString, m_matchPenalty = penalty,
      m_minVisibleScale = 0\<rparr>"

text \<open>A dictionary entry: its synonyms, each with its trigger length, and its type codes.\<close>

record Category_Name =
  m_name :: string
  m_prefixLengthToSuggest :: nat

record Category =
  m_synonyms :: "Category_Name list"
  m_types :: "u32 list"

text \<open>
  The query. \<^verbatim>\<open>m_results\<close> is a \<^verbatim>\<open>std::priority_queue\<close>, held as the list of its elements.
  \<^verbatim>\<open>m_pTrieRoot\<close> is \<open>None\<close> for a null pointer, and otherwise the candidates that the
  trie traversal offers. \<^verbatim>\<open>m_bTerminate\<close> is written by another thread while the query runs:
  it is not a field, its successive reads are an input of \<open>Search\<close>.
\<close>

record Query =
  m_queryText :: string
  m_queryUniText :: UniString
  m_keywords :: "UniString list"
  m_prefix :: UniString
  m_pCategories :: "Category list option"
  m_pTrieRoot :: "IntermediateResult list option"
  m_resultsRemaining :: int
  m_results :: "IntermediateResult list"
  m_keywordsToSkipForType :: "u32 \<Rightarrow> u32 option"

text \<open>
  Functions of the repository that query.cpp calls and that are not among the sources:
  the text utilities (normalisation, splitting at delimiters, the delimiter test, the last
  character of a string), the keyword matcher run over the names of a feature
  (\<^verbatim>\<open>MakeMatcher\<close>, then \<^verbatim>\<open>ForEachNameRef\<close>) and over one dictionary name
  (\<^verbatim>\<open>MakeMatcher\<close> with no keywords, then \<^verbatim>\<open>ProcessNameToken\<close>, then
  \<^verbatim>\<open>GetPrefixMatchScore\<close>), and the conversion of an intermediate result into a result.
  \<open>EmptyResult\<close> is \<^verbatim>\<open>Result(string(), string())\<close>, the end marker.
  Every definition below takes them as the parameter \<open>X\<close>.
\<close>

record 'r externals =
  NormalizeAndSimplifyString :: "string \<Rightarrow> UniString"
  SplitUniString :: "UniString \<Rightarrow> UniString list"
  Delimiters :: "UniChar \<Rightarrow> bool"
  LastUniChar :: "string \<Rightarrow> UniChar"
  MatchFeature :: "UniString list \<Rightarrow> UniString \<Rightarrow> Feature \<Rightarrow> KeywordMatcher"
  MatchNamePrefix :: "UniString \<Rightarrow> UniString \<Rightarrow> u32"
  GenerateFinalResult :: "IntermediateResult \<Rightarrow> 'r"
  EmptyResult :: 'r

text \<open>
  \<open>StopException\<close> is the exception of \<^verbatim>\<open>FeatureProcessor\<close>. \<open>EmptyTop\<close> is
  \<^verbatim>\<open>top()\<close> called on an empty priority queue, which is undefined behaviour.
\<close>

datatype error = StopException | EmptyTop

text \<open>
  Modelled from the spec: the \<^verbatim>\<open>ASSERT\<close> macros (base/assert.hpp) are not among the sources.
  Section 7 of the spec: more than 31 keyword tokens are "silently truncated, not surfaced as
  an error", and section 9: the bound on the trigger length "is asserted, not enforced". So
  an assertion has no effect on the run, as in a build that compiles assertions out.
  \<open>ASSERT c x\<close> stands where the source asserts \<open>c\<close> before it computes \<open>x\<close>.
\<close>

definition ASSERT :: "bool \<Rightarrow> 'a \<Rightarrow> 'a" where
  [simp]: "ASSERT c x = x"

section \<open>Query construction (query.cpp, lines 125-148)\<close>

text \<open>
  The members that \<open>Search\<close> does not read (viewport, features vector, engine) are left
  out; the index is an input of \<open>Search\<close>.
\<close>

definition Query_ctor ::
    "'r externals \<Rightarrow> string \<Rightarrow> Category list option \<Rightarrow> IntermediateResult list option \<Rightarrow> Query" where
  "Query_ctor X query pCategories pTrieRoot =
     (let uniText = NormalizeAndSimplifyString X query;
          tokens = SplitUniString X uniText;
          (prefix, keywords) =
            (if tokens \<noteq> [] \<and> \<not> Delimiters X (LastUniChar X query)
             then (last tokens, butlast tokens) else ([], tokens));
          keywords' = ASSERT (length keywords \<le> 31)
            (if length keywords > 31 then take 31 keywords else keywords)
      in \<lparr>m_queryText = query, m_queryUniText = uniText, m_keywords = keywords',
          m_prefix = prefix, m_pCategories = pCategories, m_pTrieRoot = pTrieRoot,
          m_resultsRemaining = 10, m_results = [], m_keywordsToSkipForType = Map.empty\<rparr>)"

section \<open>The result ranker (query.cpp, lines 282-312)\<close>

text \<open>
  \<^verbatim>\<open>std::priority_queue\<close> with the default comparison: \<^verbatim>\<open>top()\<close> is an element that no other
  element is greater than, \<^verbatim>\<open>pop()\<close> removes it, \<^verbatim>\<open>push\<close> adds an element. Among elements of
  equal cost the model takes the one that stands last in the list.
\<close>

fun pq_top :: "IntermediateResult list \<Rightarrow> IntermediateResult option" where
  "pq_top [] = None"
| "pq_top (x # xs) =
     (case pq_top xs of None \<Rightarrow> Some x | Some t \<Rightarrow> Some (if less_IR t x then x else t))"

text \<open>query.cpp calls \<^verbatim>\<open>pop()\<close> only after \<^verbatim>\<open>top()\<close> on the same queue.\<close>

definition pq_pop :: "IntermediateResult list \<Rightarrow> IntermediateResult list" where
  "pq_pop xs = (case pq_top xs of None \<Rightarrow> [] | Some t \<Rightarrow> remove1 t xs)"

definition pq_push :: "IntermediateResult \<Rightarrow> IntermediateResult list \<Rightarrow> IntermediateResult list" where
  "pq_push x xs = x # xs"

text \<open>
  \<^verbatim>\<open>m_results.size() < m_resultsRemaining\<close> compares a \<^verbatim>\<open>size_t\<close> with an \<^verbatim>\<open>int\<close>: the int is
  converted to unsigned, and a negative one becomes a value above the size of any container.
\<close>

definition size_less_int :: "nat \<Rightarrow> int \<Rightarrow> bool" where
  "size_less_int n i = (if i < 0 then True else int n < i)"

definition AddResult :: "IntermediateResult \<Rightarrow> Query \<Rightarrow> error + Query" where
  "AddResult result q =
     (if size_less_int (length (m_results q)) (m_resultsRemaining q)
      then Inr (q\<lparr>m_results := pq_push result (m_results q)\<rparr>)
      else (case pq_top (m_results q) of
              None \<Rightarrow> Inl EmptyTop
            | Some t \<Rightarrow>
                if less_IR result t
                then Inr (q\<lparr>m_results := pq_push result (pq_pop (m_results q))\<rparr>)
                else Inr q))"

text \<open>Candidates offered one after the other, as the phases of \<open>Search\<close> do.\<close>

fun AddResults :: "IntermediateResult list \<Rightarrow> Query \<Rightarrow> error + Query" where
  "AddResults [] q = Inr q"
| "AddResults (c # cs) q =
     (case AddResult c q of Inl e \<Rightarrow> Inl e | Inr q' \<Rightarrow> AddResults cs q')"

lemma pq_top_mem: "pq_top xs = Some t \<Longrightarrow> t \<in> set xs"
  by (induction xs arbitrary: t) (auto split: option.splits if_splits)

lemma length_pq_pop: "pq_top xs = Some t \<Longrightarrow> length (pq_pop xs) < length xs"
proof -
  assume top: "pq_top xs = Some t"
  then have "t \<in> set xs" by (rule pq_top_mem)
  then have "length (remove1 t xs) < length xs"
    using length_pos_if_in_set [of t xs] by (simp add: length_remove1)
  with top show ?thesis by (simp add: pq_pop_def)
qed

text \<open>
  The loop of \<^verbatim>\<open>FlushResults\<close>: \<^verbatim>\<open>while (!m_results.empty())\<close>, take the top and pop it.
  \<open>pq_top\<close> is \<open>None\<close> exactly on the empty queue.
\<close>

function drain :: "IntermediateResult list \<Rightarrow> IntermediateResult list" where
  "drain xs = (case pq_top xs of None \<Rightarrow> [] | Some t \<Rightarrow> t # drain (pq_pop xs))"
  by pat_completeness auto
termination
  by (relation "measure length") (auto simp: length_pq_pop)

declare drain.simps [simp del]

text \<open>
  The second component is what the callback \<^verbatim>\<open>f\<close> receives, in the order of the calls: the
  drained results through the reverse iterator.
\<close>

definition FlushResults :: "'r externals \<Rightarrow> Query \<Rightarrow> Query \<times> 'r list" where
  "FlushResults X q =
     (let results = map (GenerateFinalResult X) (drain (m_results q))
      in (q\<lparr>m_results := [],
            m_resultsRemaining := max 0 (m_resultsRemaining q - int (length results))\<rparr>,
          rev results))"

definition GetKeywordsToSkipForType :: "Query \<Rightarrow> u32 \<Rightarrow> u32" where
  "GetKeywordsToSkipForType q ty =
     (case m_keywordsToSkipForType q ty of None \<Rightarrow> 0 | Some v \<Rightarrow> v)"

section \<open>The feature processor (query.cpp, lines 72-121)\<close>

definition keywordsSkipMask :: "Query \<Rightarrow> Feature \<Rightarrow> u32" where
  "keywordsSkipMask q feature =
     fold (\<lambda>ty skipMask. skipMask OR GetKeywordsToSkipForType q ty) (f_types feature) 0"

text \<open>Lines 96-100: the keywords at the positions below 32 whose bit is clear in the mask.\<close>

definition unskipped_keywords :: "u32 \<Rightarrow> UniString list \<Rightarrow> UniString list" where
  "unskipped_keywords skipMask queryKeywords =
     map (\<lambda>i. queryKeywords ! i)
       (filter (\<lambda>i. skipMask AND push_bit i 1 = 0) [0 ..< min (length queryKeywords) 32])"

text \<open>\<open>terminate\<close> is the value that \<^verbatim>\<open>GetTerminateFlag()\<close> returns to this call.\<close>

definition FeatureProcessor ::
    "'r externals \<Rightarrow> bool \<Rightarrow> Feature \<Rightarrow> Query \<Rightarrow> error + Query" where
  "FeatureProcessor X terminate feature q =
     (if terminate then Inl StopException
      else
        let keywords = ASSERT (length (m_keywords q) < 32)
              (unskipped_keywords (keywordsSkipMask q feature) (m_keywords q));
            matcher = MatchFeature X keywords (m_prefix q) feature
        in if PrefixMatchScore matcher \<le> GetMaxPrefixMatchScore (int (length (m_prefix q)))
           then
             let matchScore = MatchScore matcher
             in if matchScore \<le> GetMaxKeywordMatchScore
                then
                  let scaleRange = f_textScaleRange feature
                  in if fst scaleRange < 0 then Inr q
                     else AddResult
                            (IntermediateResult_feature feature (BestMatchName matcher)
                               matchScore (fst scaleRange)) q
                else Inr q
           else Inr q)"

section \<open>The category phase (query.cpp, lines 174-234)\<close>

text \<open>\<^verbatim>\<open>m_keywordsToSkipForType[*iType] |= mask\<close> for every type of the entry.\<close>

fun or_types :: "u32 list \<Rightarrow> u32 \<Rightarrow> (u32 \<Rightarrow> u32 option) \<Rightarrow> (u32 \<Rightarrow> u32 option)" where
  "or_types [] bits m = m"
| "or_types (ty # tys) bits m =
     or_types tys bits (m(ty \<mapsto> (case m ty of None \<Rightarrow> 0 | Some v \<Rightarrow> v) OR bits))"

text \<open>
  The initial \<^verbatim>\<open>bestPrefixMatchPenalty\<close> and the penalty of one synonym: unsigned 32-bit
  arithmetic, stored in an \<^verbatim>\<open>int\<close>.
\<close>

definition initial_penalty :: "UniString \<Rightarrow> int" where
  "initial_penalty prefix =
     sint (push_bit 5 (GetMaxPrefixMatchScore (int (length prefix)) + 1) - (1 :: u32))"

definition synonym_penalty :: "u32 \<Rightarrow> nat \<Rightarrow> int" where
  "synonym_penalty score prefixLengthToSuggest =
     sint (push_bit 5 score + (of_nat prefixLengthToSuggest :: u32))"

text \<open>
  The body of the loop over the synonyms of one entry (lines 189-225). The state is the
  query with the two local variables \<^verbatim>\<open>bestPrefixMatch\<close> and \<^verbatim>\<open>bestPrefixMatchPenalty\<close>.
  The masks \<^verbatim>\<open>(1 << n) - 1\<close> are \<^verbatim>\<open>int\<close> expressions stored into a \<^verbatim>\<open>uint32_t\<close>; they are
  taken in 32-bit two's complement. With at most 31 keywords no bit above 30 is set; only
  for n = 31 (a synonym whose 31 tokens are all 31 keywords) does the shift \<^verbatim>\<open>1 << 31\<close>
  leave the range of \<^verbatim>\<open>int\<close> in the source, and the model takes the wrapped value there.
\<close>

definition synonym_step ::
    "'r externals \<Rightarrow> Category \<Rightarrow> Category_Name \<Rightarrow> Query \<times> string \<times> int \<Rightarrow> Query \<times> string \<times> int" where
  "synonym_step X iCategory iName st =
     (case st of (q, bestPrefixMatch, bestPrefixMatchPenalty) \<Rightarrow>
        if m_keywords q \<noteq> [] then
          let tokens = SplitUniString X (NormalizeAndSimplifyString X (m_name iName));
              n = length tokens
          in if length (m_keywords q) \<ge> n then
               let m1 = (if take n (m_keywords q) = tokens
                         then or_types (m_types iCategory) (push_bit n 1 - 1)
                                (m_keywordsToSkipForType q)
                         else m_keywordsToSkipForType q);
                   m2 = (if drop (length (m_keywords q) - n) (m_keywords q) = tokens
                         then or_types (m_types iCategory)
                                (push_bit (length (m_keywords q) - n) (push_bit n 1 - 1)) m1
                         else m1)
               in (q\<lparr>m_keywordsToSkipForType := m2\<rparr>, bestPrefixMatch, bestPrefixMatchPenalty)
             else st
        else if m_prefix q \<noteq> [] then
          if length (m_prefix q) \<ge> m_prefixLengthToSuggest iName then
            let penalty =
                  ASSERT (m_prefixLengthToSuggest iName < 32)
                    (synonym_penalty
                       (MatchNamePrefix X (m_prefix q)
                          (NormalizeAndSimplifyString X (m_name iName)))
                       (m_prefixLengthToSuggest iName))
            in if penalty < bestPrefixMatchPenalty then (q, m_name iName, penalty) else st
          else st
        else st)"

text \<open>One entry of the dictionary: the body of the outer loop (lines 180-232).\<close>

definition category_step :: "'r externals \<Rightarrow> Category \<Rightarrow> Query \<Rightarrow> error + Query" where
  "category_step X iCategory q =
     (case fold (synonym_step X iCategory) (m_synonyms iCategory)
             (q, [], initial_penalty (m_prefix q)) of
        (q', bestPrefixMatch, bestPrefixMatchPenalty) \<Rightarrow>
          if bestPrefixMatch \<noteq> []
          then AddResult
                 (IntermediateResult_suggestion bestPrefixMatch (bestPrefixMatch @ '' '')
                    bestPrefixMatchPenalty) q'
          else Inr q')"

fun category_loop :: "'r externals \<Rightarrow> Category list \<Rightarrow> Query \<Rightarrow> error + Query" where
  "category_loop X [] q = Inr q"
| "category_loop X (c # cs) q =
     (case category_step X c q of Inl e \<Rightarrow> Inl e | Inr q' \<Rightarrow> category_loop X cs q')"

definition category_phase :: "'r externals \<Rightarrow> Query \<Rightarrow> error + Query" where
  "category_phase X q =
     (case m_pCategories q of None \<Rightarrow> Inr q | Some cs \<Rightarrow> category_loop X cs q)"

section \<open>The phases of Search (query.cpp, lines 156-280)\<close>

text \<open>
  What the collaborators outside query.cpp give to one run: the candidate of the coordinate
  phase when \<^verbatim>\<open>MatchLatLon\<close> succeeds, whether the scale of the viewport is above
  \<^verbatim>\<open>GetUpperWorldScale()\<close>, and the features that \<^verbatim>\<open>ForEachInRect\<close> passes to the
  processor, in that order. \<open>Search\<close> dereferences \<^verbatim>\<open>m_pIndex\<close> without a test: the index is
  taken as present.
\<close>

record Collaborators =
  MatchLatLon :: "IntermediateResult option"
  scale_above_world :: bool
  index_features :: "Feature list"

text \<open>
  The termination flag is an input: \<open>fl t\<close> is the value that read number \<open>t\<close> of
  \<^verbatim>\<open>m_bTerminate\<close> returns. Every function that reads the flag carries the number of the
  next read.

  \<^verbatim>\<open>ForEachInRect\<close> calls the processor on one feature after the other; an exception ends the
  enumeration and leaves the query as the calls before it made it.
\<close>

fun ForEachInRect ::
    "'r externals \<Rightarrow> (nat \<Rightarrow> bool) \<Rightarrow> Feature list \<Rightarrow> Query \<times> nat \<Rightarrow> error option \<times> Query \<times> nat" where
  "ForEachInRect X fl [] (q, t) = (None, q, t)"
| "ForEachInRect X fl (feature # rest) (q, t) =
     (case FeatureProcessor X (fl t) feature q of
        Inl e \<Rightarrow> (Some e, q, Suc t)
      | Inr q' \<Rightarrow> ForEachInRect X fl rest (q', Suc t))"

text \<open>Lines 241-254, with the \<^verbatim>\<open>catch\<close> of the stop exception.\<close>

definition local_phase ::
    "'r externals \<Rightarrow> (nat \<Rightarrow> bool) \<Rightarrow> Collaborators \<Rightarrow> Query \<times> nat \<Rightarrow> error + Query \<times> nat" where
  "local_phase X fl W st =
     (if scale_above_world W
      then (case ForEachInRect X fl (index_features W) st of
              (None, q', t') \<Rightarrow> Inr (q', t')
            | (Some StopException, q', t') \<Rightarrow> Inr (q', t')
            | (Some EmptyTop, q', t') \<Rightarrow> Inl EmptyTop)
      else Inr st)"

text \<open>
  Modelled from the spec: \<^verbatim>\<open>MatchAgainstTrie\<close> (search_trie_matching.hpp) is not among the
  sources. Section 4.5 of the spec: the trie phase "enumerates named entities from the
  world-level trie index, scoring each the same way, subject to the same cancellation check
  between entities". The candidates it offers are the content of \<^verbatim>\<open>m_pTrieRoot\<close>.
\<close>

fun MatchAgainstTrie ::
    "(nat \<Rightarrow> bool) \<Rightarrow> IntermediateResult list \<Rightarrow> Query \<times> nat \<Rightarrow> error + Query \<times> nat" where
  "MatchAgainstTrie fl [] (q, t) = Inr (q, t)"
| "MatchAgainstTrie fl (c # cs) (q, t) =
     (if fl t then Inr (q, Suc t)
      else (case AddResult c q of
              Inl e \<Rightarrow> Inl e
            | Inr q' \<Rightarrow> MatchAgainstTrie fl cs (q', Suc t)))"

definition coordinate_phase :: "Collaborators \<Rightarrow> Query \<Rightarrow> error + Query" where
  "coordinate_phase W q =
     (case MatchLatLon W of None \<Rightarrow> Inr q | Some r \<Rightarrow> AddResult r q)"

definition trie_phase :: "(nat \<Rightarrow> bool) \<Rightarrow> Query \<times> nat \<Rightarrow> error + Query \<times> nat" where
  "trie_phase fl st =
     (case m_pTrieRoot (fst st) of None \<Rightarrow> Inr st | Some cs \<Rightarrow> MatchAgainstTrie fl cs st)"

text \<open>
  Lines 156-257: everything before the first flush. \<open>None\<close> is a \<^verbatim>\<open>return\<close> at one of
  the tests of the flag; otherwise the query and the number of the next read.
\<close>

definition before_flush ::
    "'r externals \<Rightarrow> (nat \<Rightarrow> bool) \<Rightarrow> Collaborators \<Rightarrow> Query \<Rightarrow> error + (Query \<times> nat) option" where
  "before_flush X fl W q =
     (if fl 0 then Inr None
      else case coordinate_phase W q of
        Inl e \<Rightarrow> Inl e
      | Inr q1 \<Rightarrow>
          if fl 1 then Inr None
          else case category_phase X q1 of
            Inl e \<Rightarrow> Inl e
          | Inr q2 \<Rightarrow>
              if fl 2 then Inr None
              else case local_phase X fl W (q2, 3) of
                Inl e \<Rightarrow> Inl e
              | Inr (q3, t3) \<Rightarrow> if fl t3 then Inr None else Inr (Some (q3, Suc t3)))"

text \<open>
  Lines 259-280. The result is the list of the values passed to the callback \<^verbatim>\<open>f\<close>, in the
  order of the calls.
\<close>

definition after_flush ::
    "'r externals \<Rightarrow> (nat \<Rightarrow> bool) \<Rightarrow> Query \<times> nat \<Rightarrow> error + 'r list" where
  "after_flush X fl st =
     (case st of (q3, t) \<Rightarrow>
        case FlushResults X q3 of (q4, out1) \<Rightarrow>
          if m_resultsRemaining q4 = 0 then Inr (out1 @ [EmptyResult X])
          else if fl t then Inr out1
          else case trie_phase fl (q4, Suc t) of
            Inl e \<Rightarrow> Inl e
          | Inr (q5, t5) \<Rightarrow>
              if fl t5 then Inr out1
              else case FlushResults X q5 of (q6, out2) \<Rightarrow>
                Inr (out1 @ out2 @ [EmptyResult X]))"

definition Search ::
    "'r externals \<Rightarrow> (nat \<Rightarrow> bool) \<Rightarrow> Collaborators \<Rightarrow> Query \<Rightarrow> error + 'r list" where
  "Search X fl W q =
     (case before_flush X fl W q of
        Inl e \<Rightarrow> Inl e
      | Inr None \<Rightarrow> Inr []
      | Inr (Some st) \<Rightarrow> after_flush X fl st)"

text \<open>
  The keyword positions that a synonym consumes, in the words of the spec: the first n
  positions when its n tokens equal the first n keywords, the last n positions when they
  equal the last n keywords.
\<close>

definition consumes :: "'r externals \<Rightarrow> UniString list \<Rightarrow> Category_Name \<Rightarrow> nat \<Rightarrow> bool" where
  "consumes X keywords s i \<longleftrightarrow>
     (let tokens = SplitUniString X (NormalizeAndSimplifyString X (m_name s));
          n = length tokens; sz = length keywords
      in take n keywords = tokens \<and> i < n \<or>
         n \<le> sz \<and> drop (sz - n) keywords = tokens \<and> sz - n \<le> i \<and> i < sz)"

text \<open>
  The number of reads of the flag that the scan of the features makes when no read finds
  the flag set, and the same for the trie phase.
\<close>

definition scanned :: "Collaborators \<Rightarrow> nat" where
  "scanned W = (if scale_above_world W then length (index_features W) else 0)"

definition offered :: "Query \<Rightarrow> nat" where
  "offered q = (case m_pTrieRoot q of None \<Rightarrow> 0 | Some cs \<Rightarrow> length cs)"

text \<open>
  What the constructor sets up and every phase keeps: a budget of at least 1, and at most
  as many entries in the collection as the budget.
\<close>

definition has_budget :: "Query \<Rightarrow> bool" where
  "has_budget q \<longleftrightarrow>
     1 \<le> m_resultsRemaining q \<and> int (length (m_results q)) \<le> m_resultsRemaining q"

section \<open>A small instance of the external functions\<close>

text \<open>
  Used to run the model on concrete inputs: ASCII text, split at spaces; a matcher that asks
  for every keyword among the names of the feature and for a name that starts with the
  prefix; a result is the pair of the two strings of the intermediate result.
\<close>

definition ascii :: "string \<Rightarrow> UniString" where
  "ascii s = map of_char s"

fun split_spaces :: "UniString \<Rightarrow> UniString \<Rightarrow> UniString list" where
  "split_spaces cur [] = (if cur = [] then [] else [cur])"
| "split_spaces cur (c # cs) =
     (if c = 32 then (if cur = [] then split_spaces [] cs else cur # split_spaces [] cs)
      else split_spaces (cur @ [c]) cs)"

definition sample_prefix_score :: "UniString \<Rightarrow> UniString \<Rightarrow> u32" where
  "sample_prefix_score prefix name =
     (case PrefixMatch prefix name (GetMaxPrefixMatchScore (int (length prefix))) of
        None \<Rightarrow> GetMaxPrefixMatchScore (int (length prefix)) + 1
      | Some c \<Rightarrow> c)"

definition sample_matcher :: "UniString list \<Rightarrow> UniString \<Rightarrow> Feature \<Rightarrow> KeywordMatcher" where
  "sample_matcher keywords prefix feature =
     \<lparr>PrefixMatchScore =
        (if prefix = [] \<or> list_ex (\<lambda>n. sample_prefix_score prefix (ascii n) = 0) (f_names feature)
         then 0 else GetMaxPrefixMatchScore (int (length prefix)) + 1),
      MatchScore =
        (if list_all (\<lambda>k. list_ex (\<lambda>n. ascii n = k) (f_names feature)) keywords
         then 0 else GetMaxKeywordMatchScore + 1),
      BestMatchName = (case f_names feature of [] \<Rightarrow> [] | n # ns \<Rightarrow> n)\<rparr>"

definition sample :: "(string \<times> string) externals" where
  "sample =
     \<lparr>NormalizeAndSimplifyString = ascii,
      SplitUniString = split_spaces [],
      Delimiters = (\<lambda>c. c = 32),
      LastUniChar = (\<lambda>s. case rev s of [] \<Rightarrow> 0 | c # cs \<Rightarrow> of_char c),
      MatchFeature = sample_matcher,
      MatchNamePrefix = sample_prefix_score,
      GenerateFinalResult = (\<lambda>r. (m_str r, m_completionString r)),
      EmptyResult = ([], [])\<rparr>"

text \<open>A candidate of a given cost, and a query with a given cap and no text.\<close>

definition sample_result :: "int \<Rightarrow> IntermediateResult" where
  "sample_result k =
     \<lparr>m_str = ''r'', m_completionString = [], m_matchPenalty = k, m_minVisibleScale = 0\<rparr>"

definition sample_query :: "int \<Rightarrow> Query" where
  "sample_query N = (Query_ctor sample [] None None)\<lparr>m_resultsRemaining := N\<rparr>"

text \<open>A dictionary entry for cafes, a feature of its type, and the query "cafe roma ".\<close>

definition sample_synonym :: Category_Name where
  "sample_synonym = \<lparr>m_name = ''cafe'', m_prefixLengthToSuggest = 2\<rparr>"

definition sample_category :: Category where
  "sample_category = \<lparr>m_synonyms = [sample_synonym], m_types = [7]\<rparr>"

definition sample_feature :: Feature where
  "sample_feature = \<lparr>f_types = [7], f_names = [''roma''], f_textScaleRange = (10, 17)\<rparr>"

definition cafe_roma :: Query where
  "cafe_roma = Query_ctor sample ''cafe roma '' (Some [sample_category]) None"

text \<open>A second entry, and the queries "ca" and "caf": no keyword, a prefix.\<close>

definition sample_casino :: Category where
  "sample_casino =
     \<lparr>m_synonyms = [\<lparr>m_name = ''casino'', m_prefixLengthToSuggest = 2\<rparr>], m_types = [8]\<rparr>"

definition ca_query :: Query where
  "ca_query = Query_ctor sample ''ca'' (Some [sample_category, sample_casino]) None"

definition caf_query :: Query where
  "caf_query = Query_ctor sample ''caf'' (Some [sample_category, sample_casino]) None"

text \<open>A viewport fine enough for the local phase, with the one feature in it.\<close>

definition sample_world :: Collaborators where
  "sample_world =
     \<lparr>MatchLatLon = None, scale_above_world = True, index_features = [sample_feature]\<rparr>"

section \<open>Properties of the match costs\<close>

lemma match_loop_take:
  "length sA \<le> length sB \<Longrightarrow>
   match_loop sA sB maxCost = Some (if take (length sA) sB = sA then 0 else maxCost + 1)"
proof (induction sA sB maxCost rule: match_loop.induct)
  case (1 sB maxCost)
  show ?case by simp
next
  case (2 a sA maxCost)
  then show ?case by simp
next
  case (3 a sA b sB maxCost)
  then show ?case by auto
qed

lemma KeywordMatch_value:
  "KeywordMatch sA sB maxCost = Some (if sA = sB then 0 else maxCost + 1)"
proof (cases "length sA = length sB")
  case True
  then have "take (length sA) sB = sB" by simp
  with True show ?thesis
    by (auto simp: KeywordMatch_def match_loop_take)
next
  case False
  then have "sA \<noteq> sB" by auto
  with False show ?thesis by (simp add: KeywordMatch_def)
qed

lemma PrefixMatch_value:
  "PrefixMatch sA sB maxCost =
     Some (if length sA \<le> length sB \<and> take (length sA) sB = sA then 0 else maxCost + 1)"
  by (simp add: PrefixMatch_def match_loop_take)

lemma GetMaxPrefixMatchScore_cases:
  "GetMaxPrefixMatchScore n = 1 \<or> GetMaxPrefixMatchScore n = 256 \<or> GetMaxPrefixMatchScore n = 512"
  by (simp add: GetMaxPrefixMatchScore_def)

lemma GetMaxPrefixMatchScore_succ_neq_0: "GetMaxPrefixMatchScore n + 1 \<noteq> 0"
  by (simp add: GetMaxPrefixMatchScore_def)

text \<open>
  Claim C5, as stated, fails at one value of the ceiling.
  With \<open>maxCost = 2^32 - 1\<close> the sum \<open>maxCost + 1\<close> wraps to 0, so two different tokens
  get cost 0.
\<close>

theorem KeywordMatch_wraps_counterexample:
  "KeywordMatch [1] [2] 4294967295 = Some 0 \<and> [1 :: UniChar] \<noteq> [2]"
  by (simp add: KeywordMatch_def)

text \<open>
  Claim C5, amended: for every pair of token character sequences A and B and every
  ceiling \<open>maxCost\<close> other than \<open>2^32 - 1\<close> (so for the configured ceiling 512), the
  keyword-match cost is 0 if and only if A and B have equal length and every character
  matches in order; any length mismatch or character mismatch yields exactly
  \<open>maxCost + 1\<close>, which is strictly above the ceiling; no other cost is ever returned
  (this last part holds for every \<open>maxCost\<close>).
\<close>

theorem KeywordMatch_exact:
  "(KeywordMatch A B maxCost = Some 0 \<or> KeywordMatch A B maxCost = Some (maxCost + 1)) \<and>
   (maxCost \<noteq> - 1 \<longrightarrow>
      (KeywordMatch A B maxCost = Some 0 \<longleftrightarrow>
         length A = length B \<and> (\<forall>i < length A. A ! i = B ! i)) \<and>
      (\<not> (length A = length B \<and> (\<forall>i < length A. A ! i = B ! i)) \<longrightarrow>
         KeywordMatch A B maxCost = Some (maxCost + 1) \<and> maxCost < maxCost + 1)) \<and>
   (A \<noteq> B \<longrightarrow> KeywordMatch A B GetMaxKeywordMatchScore = Some 513 \<and>
      GetMaxKeywordMatchScore < 513)"
proof -
  have eq: "(length A = length B \<and> (\<forall>i < length A. A ! i = B ! i)) \<longleftrightarrow> A = B"
    by (auto simp: list_eq_iff_nth_eq)
  have nz: "maxCost \<noteq> - 1 \<Longrightarrow> maxCost + 1 \<noteq> 0"
    by (metis add.commute add_eq_0_iff)
  have lt: "maxCost \<noteq> - 1 \<Longrightarrow> maxCost < maxCost + 1"
    by (metis inc_less_eq_triv_imp linorder_less_linear word_le_less_eq)
  show ?thesis
    unfolding eq using nz lt
    by (auto simp: KeywordMatch_value GetMaxKeywordMatchScore_def)
qed

theorem KeywordMatch_exact_witness:
  "KeywordMatch [104, 105] [104, 105] 512 = Some 0 \<and>
   KeywordMatch [104, 105] [104, 106] 512 = Some 513 \<and>
   KeywordMatch [104, 105] [104] 512 = Some 513 \<and> (512 :: u32) < 513"
  using KeywordMatch_exact [of "[104, 105]" "[104, 105]" 512]
    KeywordMatch_exact [of "[104, 105]" "[104, 106]" 512]
    KeywordMatch_exact [of "[104, 105]" "[104]" 512]
  by (simp add: GetMaxKeywordMatchScore_def)

text \<open>
  Claim C6: for every prefix P and candidate token T, with the ceiling that the prefix
  length selects (1 below length 3, 256 below length 6, 512 otherwise), the prefix-match
  cost is 0 if and only if T starts with P character for character (so P is not longer
  than T); every mismatch yields the ceiling plus 1, which is not 0.
\<close>

theorem PrefixMatch_exact:
  "(PrefixMatch P T (GetMaxPrefixMatchScore (int (length P))) = Some 0 \<longleftrightarrow>
      length P \<le> length T \<and> take (length P) T = P) \<and>
   (\<not> (length P \<le> length T \<and> take (length P) T = P) \<longrightarrow>
      PrefixMatch P T (GetMaxPrefixMatchScore (int (length P))) =
        Some (GetMaxPrefixMatchScore (int (length P)) + 1)) \<and>
   GetMaxPrefixMatchScore (int (length P)) < GetMaxPrefixMatchScore (int (length P)) + 1 \<and>
   GetMaxPrefixMatchScore sz =
     (if sz < 3 then 1 else if sz < 6 then 256 else 512)"
proof -
  have lt: "GetMaxPrefixMatchScore n < GetMaxPrefixMatchScore n + 1" for n
    by (simp add: GetMaxPrefixMatchScore_def)
  have tab: "GetMaxPrefixMatchScore sz = (if sz < 3 then 1 else if sz < 6 then 256 else 512)"
    by (simp add: GetMaxPrefixMatchScore_def)
  have m: "PrefixMatch P T (GetMaxPrefixMatchScore (int (length P))) = Some 0 \<longleftrightarrow>
      length P \<le> length T \<and> take (length P) T = P"
    using GetMaxPrefixMatchScore_succ_neq_0 [of "int (length P)"]
    by (simp add: PrefixMatch_value)
  have mm: "\<not> (length P \<le> length T \<and> take (length P) T = P) \<longrightarrow>
      PrefixMatch P T (GetMaxPrefixMatchScore (int (length P))) =
        Some (GetMaxPrefixMatchScore (int (length P)) + 1)"
    by (simp add: PrefixMatch_value)
  from m mm lt tab show ?thesis by blast
qed

theorem PrefixMatch_exact_witness:
  "PrefixMatch [99, 97] [99, 97, 102, 101] 1 = Some 0 \<and>
   PrefixMatch [99, 97, 102] [99, 97] 256 = Some 257 \<and>
   PrefixMatch [99, 97, 102, 101, 115, 33] [99, 97, 102, 101, 115, 34] 512 = Some 513"
  using PrefixMatch_exact [of "[99, 97]" "[99, 97, 102, 101]" 0]
    PrefixMatch_exact [of "[99, 97, 102]" "[99, 97]" 0]
    PrefixMatch_exact [of "[99, 97, 102, 101, 115, 33]" "[99, 97, 102, 101, 115, 34]" 0]
  by (simp add: GetMaxPrefixMatchScore_def)


section \<open>Tokenization on construction\<close>

text \<open>
  Claim C7: when the text ends in a delimiter the prefix is empty and the keywords are the
  tokens, cut to the first 31; when it does not and there is a token, the last token is the
  prefix and the keywords are the tokens before it, cut to the first 31. The keywords are
  always an initial segment of the tokens of length at most 31, the keywords that the
  feature processor hands to the matcher stand at positions of that segment, and a query of
  40 tokens keeps exactly 31 keywords.
\<close>

theorem Query_ctor_tokens:
  "(let tokens = SplitUniString X (NormalizeAndSimplifyString X text);
        q = Query_ctor X text pCategories pTrieRoot;
        endsInDelimiter = Delimiters X (LastUniChar X text)
    in (endsInDelimiter \<longrightarrow> m_prefix q = [] \<and> m_keywords q = take 31 tokens) \<and>
       (\<not> endsInDelimiter \<and> tokens \<noteq> [] \<longrightarrow>
          m_prefix q = last tokens \<and> m_keywords q = take 31 (butlast tokens)) \<and>
       (tokens = [] \<longrightarrow> m_prefix q = [] \<and> m_keywords q = []) \<and>
       length (m_keywords q) \<le> 31 \<and>
       m_keywords q = take (length (m_keywords q)) tokens \<and>
       (length tokens = 40 \<longrightarrow> length (m_keywords q) = 31) \<and>
       unskipped_keywords skipMask (m_keywords q) =
         map (\<lambda>i. tokens ! i)
           (filter (\<lambda>i. skipMask AND push_bit i 1 = 0) [0 ..< length (m_keywords q)]))"
proof -
  let ?tokens = "SplitUniString X (NormalizeAndSimplifyString X text)"
  let ?q = "Query_ctor X text pCategories pTrieRoot"
  let ?d = "Delimiters X (LastUniChar X text)"
  have pre: "m_prefix ?q = (if ?tokens \<noteq> [] \<and> \<not> ?d then last ?tokens else [])"
    by (simp add: Query_ctor_def Let_def)
  have kw: "m_keywords ?q = take 31 (if ?tokens \<noteq> [] \<and> \<not> ?d then butlast ?tokens else ?tokens)"
    by (simp add: Query_ctor_def Let_def)
  have c1: "?d \<longrightarrow> m_prefix ?q = [] \<and> m_keywords ?q = take 31 ?tokens"
    by (simp add: pre kw)
  have c2: "\<not> ?d \<and> ?tokens \<noteq> [] \<longrightarrow>
      m_prefix ?q = last ?tokens \<and> m_keywords ?q = take 31 (butlast ?tokens)"
    by (simp add: pre kw)
  have c3: "?tokens = [] \<longrightarrow> m_prefix ?q = [] \<and> m_keywords ?q = []"
    by (simp add: pre kw)
  have len: "length (m_keywords ?q) \<le> 31"
    by (simp add: kw)
  have seg: "m_keywords ?q = take (length (m_keywords ?q)) ?tokens"
  proof (cases "?tokens \<noteq> [] \<and> \<not> ?d")
    case True
    then have "length ?tokens - Suc 0 < length ?tokens" by simp
    with True show ?thesis by (simp add: kw butlast_conv_take min_def)
  next
    case False
    then have "m_keywords ?q = take 31 ?tokens" by (auto simp: kw)
    then show ?thesis by (simp add: min_def)
  qed
  have forty: "length ?tokens = 40 \<longrightarrow> length (m_keywords ?q) = 31"
    by (simp add: kw)
  have nth: "i < length (m_keywords ?q) \<Longrightarrow> m_keywords ?q ! i = ?tokens ! i" for i
    using seg by (metis nth_take)
  have sel: "unskipped_keywords skipMask (m_keywords ?q) =
         map (\<lambda>i. ?tokens ! i)
           (filter (\<lambda>i. skipMask AND push_bit i 1 = 0) [0 ..< length (m_keywords ?q)])"
    using len nth by (simp add: unskipped_keywords_def min_def)
  from c1 c2 c3 len seg forty sel show ?thesis
    unfolding Let_def by blast
qed

theorem Query_ctor_tokens_witness:
  "m_prefix (Query_ctor sample ''ab cd '' None None) = [] \<and>
   m_keywords (Query_ctor sample ''ab cd '' None None) = [[97, 98], [99, 100]] \<and>
   m_prefix (Query_ctor sample ''ab cd'' None None) = [99, 100] \<and>
   m_keywords (Query_ctor sample ''ab cd'' None None) = [[97, 98]] \<and>
   length (SplitUniString sample (NormalizeAndSimplifyString sample
     ''a a a a a a a a a a a a a a a a a a a a a a a a a a a a a a a a a a a a a a a a'')) = 40 \<and>
   length (m_keywords (Query_ctor sample
     ''a a a a a a a a a a a a a a a a a a a a a a a a a a a a a a a a a a a a a a a a''
     None None)) = 31"
  using Query_ctor_tokens [of sample "''ab cd ''" None None 0]
    Query_ctor_tokens [of sample "''ab cd''" None None 0]
    Query_ctor_tokens [of sample
      "''a a a a a a a a a a a a a a a a a a a a a a a a a a a a a a a a a a a a a a a a''"
      None None 0]
  by (simp add: sample_def ascii_def Let_def)


section \<open>The ranker keeps the best results\<close>

lemma pq_top_None: "pq_top xs = None \<longleftrightarrow> xs = []"
  by (cases xs) (auto split: option.splits)

lemma pq_top_greatest:
  "pq_top xs = Some t \<Longrightarrow> x \<in> set xs \<Longrightarrow> m_matchPenalty x \<le> m_matchPenalty t"
proof (induction xs arbitrary: t)
  case Nil
  then show ?case by simp
next
  case (Cons a xs)
  show ?case
  proof (cases "pq_top xs")
    case None
    then have "xs = []" by (simp add: pq_top_None)
    with Cons.prems show ?thesis by simp
  next
    case (Some u)
    with Cons.prems have t: "t = (if less_IR u a then a else u)" by simp
    from Cons.prems(2) consider "x = a" | "x \<in> set xs" by auto
    then show ?thesis
    proof cases
      case 1
      with t show ?thesis by (auto simp: less_IR_def)
    next
      case 2
      then have "m_matchPenalty x \<le> m_matchPenalty u" using Cons.IH Some by blast
      with t show ?thesis by (auto simp: less_IR_def)
    qed
  qed
qed

lemma insort_below_last:
  fixes c :: int
  shows "sorted S \<Longrightarrow> S \<noteq> [] \<Longrightarrow> c < last S \<Longrightarrow>
    insort c S = insort c (butlast S) @ [last S]"
  by (induction S) auto

lemma insort_above_all:
  fixes c :: int
  assumes "\<forall>x \<in> set S. x \<le> c" and "sorted S"
  shows "insort c S = S @ [c]"
proof -
  have "sorted (S @ [c])" using assms by (simp add: sorted_append)
  then have "sort (c # S) = S @ [c]"
    by (intro properties_for_sort) simp_all
  moreover have "sort (c # S) = insort c S"
    using assms(2) by (simp add: sorted_sort_id)
  ultimately show ?thesis by simp
qed

lemma take_insort_take:
  fixes x :: int
  shows "take n (insort x (take n S)) = take n (insort x S)"
proof (induction S arbitrary: n)
  case Nil
  show ?case by (cases n) simp_all
next
  case (Cons y S)
  show ?case
  proof (cases n)
    case 0
    then show ?thesis by simp
  next
    case (Suc k)
    with Cons.IH [of k] show ?thesis by (cases k) auto
  qed
qed

lemma take_foldr_insort_take:
  fixes ys :: "int list"
  shows "take n (foldr insort ys (take n S)) = take n (foldr insort ys S)"
proof (induction ys)
  case Nil
  show ?case by simp
next
  case (Cons y ys)
  have "take n (insort y (foldr insort ys (take n S))) =
        take n (insort y (take n (foldr insort ys (take n S))))"
    by (simp add: take_insort_take)
  also have "\<dots> = take n (insort y (take n (foldr insort ys S)))"
    by (simp add: Cons.IH)
  also have "\<dots> = take n (insort y (foldr insort ys S))"
    by (simp add: take_insort_take)
  finally show ?case by simp
qed

lemma last_sort_greatest:
  fixes zs :: "int list"
  assumes "z \<in> set zs" and "\<forall>x \<in> set zs. x \<le> z"
  shows "last (sort zs) = z"
proof -
  have "z \<in> set (sort zs)" using assms(1) by simp
  then have ne: "sort zs \<noteq> []" by force
  have "last (sort zs) \<in> set (sort zs)" using ne by (rule last_in_set)
  then have le: "last (sort zs) \<le> z" using assms(2) by simp
  have "z \<in> set (sort zs)" using assms(1) by simp
  then obtain i where i: "i < length (sort zs)" "sort zs ! i = z"
    by (metis in_set_conv_nth)
  have "sort zs ! i \<le> sort zs ! (length (sort zs) - 1)"
    using i(1) by (intro sorted_nth_mono) auto
  then have "z \<le> last (sort zs)" using i(2) ne by (simp add: last_conv_nth)
  with le show ?thesis by simp
qed

lemma sort_costs_remove_top:
  assumes "pq_top xs = Some w"
  shows "sort (map m_matchPenalty (remove1 w xs)) = butlast (sort (map m_matchPenalty xs))"
    and "last (sort (map m_matchPenalty xs)) = m_matchPenalty w"
proof -
  let ?S = "sort (map m_matchPenalty xs)"
  have mem: "w \<in> set xs" using assms by (rule pq_top_mem)
  have top: "\<forall>x \<in> set (map m_matchPenalty xs). x \<le> m_matchPenalty w"
    using pq_top_greatest [OF assms] by auto
  show l: "last ?S = m_matchPenalty w"
    using mem top by (intro last_sort_greatest) auto
  have "m_matchPenalty w \<in> set ?S" using mem by simp
  then have ne: "?S \<noteq> []" by force
  have "mset ?S = mset (butlast ?S) + {#last ?S#}"
    using ne by (metis append_butlast_last_id mset.simps(1,2) mset_append union_mset_add_mset_right add.right_neutral)
  then have a: "mset (butlast ?S) = mset (map m_matchPenalty xs) - {#m_matchPenalty w#}"
    using l by simp
  have b: "mset (map m_matchPenalty (remove1 w xs)) =
      mset (map m_matchPenalty xs) - {#m_matchPenalty w#}"
    using mem by (simp add: image_mset_Diff)
  have "sorted (butlast ?S)" by (simp add: sorted_butlast)
  with a b show "sort (map m_matchPenalty (remove1 w xs)) = butlast ?S"
    by (intro properties_for_sort) simp_all
qed

lemma AddResult_step:
  assumes N: "1 \<le> m_resultsRemaining q"
    and sz: "int (length (m_results q)) \<le> m_resultsRemaining q"
  shows "\<exists>q'. AddResult c q = Inr q' \<and> q' = q\<lparr>m_results := m_results q'\<rparr> \<and>
      int (length (m_results q')) \<le> m_resultsRemaining q \<and>
      mset (m_results q') \<subseteq># add_mset c (mset (m_results q)) \<and>
      sort (map m_matchPenalty (m_results q')) =
        take (nat (m_resultsRemaining q))
          (insort (m_matchPenalty c) (sort (map m_matchPenalty (m_results q))))"
proof (cases "int (length (m_results q)) < m_resultsRemaining q")
  case True
  then have "AddResult c q = Inr (q\<lparr>m_results := c # m_results q\<rparr>)"
    using N by (simp add: AddResult_def size_less_int_def pq_push_def)
  moreover have "length (insort (m_matchPenalty c) (sort (map m_matchPenalty (m_results q))))
      \<le> nat (m_resultsRemaining q)"
    using True by simp
  ultimately show ?thesis using True by simp
next
  case False
  with sz have full: "int (length (m_results q)) = m_resultsRemaining q" by simp
  with N have "m_results q \<noteq> []" by auto
  then obtain w where w: "pq_top (m_results q) = Some w"
    using pq_top_None [of "m_results q"] by auto
  let ?S = "sort (map m_matchPenalty (m_results q))"
  have lenS: "length ?S = nat (m_resultsRemaining q)" using full by simp
  have neS: "?S \<noteq> []" using \<open>m_results q \<noteq> []\<close> by (metis length_0_conv length_map length_sort)
  have lastS: "last ?S = m_matchPenalty w" by (rule sort_costs_remove_top(2) [OF w])
  have mem: "w \<in> set (m_results q)" using w by (rule pq_top_mem)
  show ?thesis
  proof (cases "less_IR c w")
    case True
    then have r: "AddResult c q = Inr (q\<lparr>m_results := c # remove1 w (m_results q)\<rparr>)"
      using False w N by (simp add: AddResult_def size_less_int_def pq_push_def pq_pop_def)
    have lt: "m_matchPenalty c < last ?S" using True lastS by (simp add: less_IR_def)
    have "insort (m_matchPenalty c) ?S = insort (m_matchPenalty c) (butlast ?S) @ [last ?S]"
      using neS lt by (intro insort_below_last) simp_all
    moreover have "length (insort (m_matchPenalty c) (butlast ?S)) = nat (m_resultsRemaining q)"
      using lenS N by simp
    ultimately have "take (nat (m_resultsRemaining q)) (insort (m_matchPenalty c) ?S) =
        insort (m_matchPenalty c) (butlast ?S)"
      by simp
    moreover have "sort (map m_matchPenalty (c # remove1 w (m_results q))) =
        insort (m_matchPenalty c) (butlast ?S)"
      using sort_costs_remove_top(1) [OF w] by simp
    moreover have "int (length (c # remove1 w (m_results q))) \<le> m_resultsRemaining q"
      using mem full \<open>m_results q \<noteq> []\<close> by (simp add: length_remove1 Suc_diff_1)
    moreover have "mset (c # remove1 w (m_results q)) \<subseteq># add_mset c (mset (m_results q))"
      using mem by simp
    ultimately show ?thesis using r by simp
  next
    case False
    then have r: "AddResult c q = Inr q"
      using \<open>\<not> int (length (m_results q)) < m_resultsRemaining q\<close> w N
      by (simp add: AddResult_def size_less_int_def)
    have "\<forall>x \<in> set ?S. x \<le> m_matchPenalty c"
      using False pq_top_greatest [OF w] by (fastforce simp: less_IR_def)
    then have "insort (m_matchPenalty c) ?S = ?S @ [m_matchPenalty c]"
      by (intro insort_above_all) simp_all
    then have "take (nat (m_resultsRemaining q)) (insort (m_matchPenalty c) ?S) = ?S"
      using lenS by simp
    then show ?thesis using r sz by simp
  qed
qed

lemma foldr_insort_sort:
  fixes xs ys :: "int list"
  shows "foldr insort (rev ys) (sort xs) = sort (xs @ ys)"
proof -
  have "foldr insort (rev ys) (sort xs) = sort (rev ys @ xs)"
    by (simp add: sort_key_def)
  also have "\<dots> = sort (xs @ ys)"
    by (intro properties_for_sort) simp_all
  finally show ?thesis .
qed

lemma AddResults_run:
  assumes "1 \<le> m_resultsRemaining q"
    and "int (length (m_results q)) \<le> m_resultsRemaining q"
  shows "\<exists>q'. AddResults cs q = Inr q' \<and> q' = q\<lparr>m_results := m_results q'\<rparr> \<and>
      int (length (m_results q')) \<le> m_resultsRemaining q \<and>
      mset (m_results q') \<subseteq># mset (m_results q) + mset cs \<and>
      sort (map m_matchPenalty (m_results q')) =
        take (nat (m_resultsRemaining q))
          (sort (map m_matchPenalty (m_results q) @ map m_matchPenalty cs))"
  using assms
proof (induction cs arbitrary: q)
  case Nil
  then show ?case by simp
next
  case (Cons c cs)
  let ?n = "nat (m_resultsRemaining q)"
  from AddResult_step [OF Cons.prems, of c] obtain q1 where
    q1: "AddResult c q = Inr q1" "q1 = q\<lparr>m_results := m_results q1\<rparr>"
      "int (length (m_results q1)) \<le> m_resultsRemaining q"
      "mset (m_results q1) \<subseteq># add_mset c (mset (m_results q))"
      "sort (map m_matchPenalty (m_results q1)) =
        take ?n (insort (m_matchPenalty c) (sort (map m_matchPenalty (m_results q))))"
    by blast
  have N1: "m_resultsRemaining q1 = m_resultsRemaining q"
    by (subst q1(2)) simp
  from Cons.IH [of q1] Cons.prems(1) q1(3) N1 obtain q2 where
    q2: "AddResults cs q1 = Inr q2" "q2 = q1\<lparr>m_results := m_results q2\<rparr>"
      "int (length (m_results q2)) \<le> m_resultsRemaining q"
      "mset (m_results q2) \<subseteq># mset (m_results q1) + mset cs"
      "sort (map m_matchPenalty (m_results q2)) =
        take ?n (sort (map m_matchPenalty (m_results q1) @ map m_matchPenalty cs))"
    by auto
  have run: "AddResults (c # cs) q = Inr q2" using q1(1) q2(1) by simp
  have same: "q2 = q\<lparr>m_results := m_results q2\<rparr>"
    by (subst q2(2), subst q1(2)) simp
  have sub: "mset (m_results q2) \<subseteq># mset (m_results q) + mset (c # cs)"
  proof -
    have "mset (m_results q1) + mset cs \<subseteq># add_mset c (mset (m_results q)) + mset cs"
      using q1(4) by (simp add: subset_mset.add_right_mono)
    with q2(4) show ?thesis by (simp add: subset_mset.order_trans)
  qed
  let ?ys = "map m_matchPenalty cs"
  let ?S0 = "sort (map m_matchPenalty (m_results q))"
  have "take ?n (sort (map m_matchPenalty (m_results q1) @ ?ys)) =
      take ?n (foldr insort (rev ?ys) (sort (map m_matchPenalty (m_results q1))))"
    by (simp only: foldr_insort_sort)
  also have "\<dots> = take ?n (foldr insort (rev ?ys) (take ?n (insort (m_matchPenalty c) ?S0)))"
    by (simp only: q1(5))
  also have "\<dots> = take ?n (foldr insort (rev ?ys) (insort (m_matchPenalty c) ?S0))"
    by (rule take_foldr_insort_take)
  also have "insort (m_matchPenalty c) ?S0 =
      sort (m_matchPenalty c # map m_matchPenalty (m_results q))"
    by simp
  also have "foldr insort (rev ?ys) (sort (m_matchPenalty c # map m_matchPenalty (m_results q))) =
      sort ((m_matchPenalty c # map m_matchPenalty (m_results q)) @ ?ys)"
    by (rule foldr_insort_sort)
  also have "\<dots> = sort (map m_matchPenalty (m_results q) @ map m_matchPenalty (c # cs))"
    by (intro properties_for_sort) simp_all
  finally have best: "sort (map m_matchPenalty (m_results q2)) =
      take ?n (sort (map m_matchPenalty (m_results q) @ map m_matchPenalty (c # cs)))"
    using q2(5) by simp
  from run same q2(3) sub best show ?case by blast
qed

text \<open>
  Claim C1: with a cap \<open>N = m_resultsRemaining\<close> of at least 1 and at most N entries held,
  \<open>AddResult\<close> inserts the candidate when fewer than N entries are held; with N entries
  held it takes the worst entry (no entry costs more) and replaces it by the candidate when
  the candidate costs strictly less, and otherwise leaves the collection as it is. For
  every sequence of candidates the size stays at most N, every retained entry is an entry
  held before or a candidate offered, and the costs retained are the N smallest among the
  costs held before and the costs offered; so every reordering of the sequence retains the
  same costs.
\<close>

theorem AddResult_keeps_best:
  assumes "1 \<le> m_resultsRemaining q"
    and "int (length (m_results q)) \<le> m_resultsRemaining q"
  shows
    "(int (length (m_results q)) < m_resultsRemaining q \<longrightarrow>
        AddResult c q = Inr (q\<lparr>m_results := c # m_results q\<rparr>)) \<and>
     (int (length (m_results q)) = m_resultsRemaining q \<longrightarrow>
        (\<exists>w. pq_top (m_results q) = Some w \<and> w \<in> set (m_results q) \<and>
           (\<forall>x \<in> set (m_results q). m_matchPenalty x \<le> m_matchPenalty w) \<and>
           AddResult c q =
             Inr (if m_matchPenalty c < m_matchPenalty w
                  then q\<lparr>m_results := c # remove1 w (m_results q)\<rparr> else q))) \<and>
     (\<exists>q'. AddResults cs q = Inr q' \<and> q' = q\<lparr>m_results := m_results q'\<rparr> \<and>
        int (length (m_results q')) \<le> m_resultsRemaining q \<and>
        mset (m_results q') \<subseteq># mset (m_results q) + mset cs \<and>
        sort (map m_matchPenalty (m_results q')) =
          take (nat (m_resultsRemaining q))
            (sort (map m_matchPenalty (m_results q) @ map m_matchPenalty cs)) \<and>
        (\<forall>cs'. mset cs' = mset cs \<longrightarrow>
           (\<exists>q''. AddResults cs' q = Inr q'' \<and>
              sort (map m_matchPenalty (m_results q'')) =
                sort (map m_matchPenalty (m_results q')))))"
proof -
  have ins: "int (length (m_results q)) < m_resultsRemaining q \<longrightarrow>
      AddResult c q = Inr (q\<lparr>m_results := c # m_results q\<rparr>)"
    using assms(1) by (simp add: AddResult_def size_less_int_def pq_push_def)
  have full: "int (length (m_results q)) = m_resultsRemaining q \<longrightarrow>
      (\<exists>w. pq_top (m_results q) = Some w \<and> w \<in> set (m_results q) \<and>
         (\<forall>x \<in> set (m_results q). m_matchPenalty x \<le> m_matchPenalty w) \<and>
         AddResult c q =
           Inr (if m_matchPenalty c < m_matchPenalty w
                then q\<lparr>m_results := c # remove1 w (m_results q)\<rparr> else q))"
  proof
    assume eq: "int (length (m_results q)) = m_resultsRemaining q"
    with assms(1) have "m_results q \<noteq> []" by auto
    then obtain w where w: "pq_top (m_results q) = Some w"
      using pq_top_None [of "m_results q"] by auto
    have "AddResult c q =
        Inr (if m_matchPenalty c < m_matchPenalty w
             then q\<lparr>m_results := c # remove1 w (m_results q)\<rparr> else q)"
      using eq w assms(1)
      by (simp add: AddResult_def size_less_int_def pq_push_def pq_pop_def less_IR_def)
    with w pq_top_mem [OF w] pq_top_greatest [OF w]
    show "\<exists>w. pq_top (m_results q) = Some w \<and> w \<in> set (m_results q) \<and>
         (\<forall>x \<in> set (m_results q). m_matchPenalty x \<le> m_matchPenalty w) \<and>
         AddResult c q =
           Inr (if m_matchPenalty c < m_matchPenalty w
                then q\<lparr>m_results := c # remove1 w (m_results q)\<rparr> else q)"
      by blast
  qed
  from AddResults_run [OF assms, of cs] obtain q' where
    q': "AddResults cs q = Inr q'" "q' = q\<lparr>m_results := m_results q'\<rparr>"
      "int (length (m_results q')) \<le> m_resultsRemaining q"
      "mset (m_results q') \<subseteq># mset (m_results q) + mset cs"
      "sort (map m_matchPenalty (m_results q')) =
        take (nat (m_resultsRemaining q))
          (sort (map m_matchPenalty (m_results q) @ map m_matchPenalty cs))"
    by blast
  have perm: "\<exists>q''. AddResults cs' q = Inr q'' \<and>
      sort (map m_matchPenalty (m_results q'')) = sort (map m_matchPenalty (m_results q'))"
    if "mset cs' = mset cs" for cs'
  proof -
    from AddResults_run [OF assms, of cs'] obtain q'' where
      q'': "AddResults cs' q = Inr q''"
        "sort (map m_matchPenalty (m_results q'')) =
          take (nat (m_resultsRemaining q))
            (sort (map m_matchPenalty (m_results q) @ map m_matchPenalty cs'))"
      by blast
    have "mset (map m_matchPenalty (m_results q) @ map m_matchPenalty cs') =
        mset (map m_matchPenalty (m_results q) @ map m_matchPenalty cs)"
      using that by (metis mset_append mset_map)
    then have "sort (map m_matchPenalty (m_results q) @ map m_matchPenalty cs') =
        sort (map m_matchPenalty (m_results q) @ map m_matchPenalty cs)"
      by (intro properties_for_sort) simp_all
    with q'' q'(5) show ?thesis by simp
  qed
  from ins full q' perm show ?thesis by blast
qed

lemma sample_query_fields:
  "m_resultsRemaining (sample_query N) = N" "m_results (sample_query N) = []"
  "m_pTrieRoot (sample_query N) = None" "m_pCategories (sample_query N) = None"
  "m_keywords (sample_query N) = []" "m_prefix (sample_query N) = []"
  by (simp_all add: sample_query_def Query_ctor_def sample_def ascii_def Let_def)

lemma sample_result_cost: "m_matchPenalty (sample_result k) = k"
  by (simp add: sample_result_def)

lemma sample_result_eq: "sample_result j = sample_result k \<longleftrightarrow> j = k"
  by (simp add: sample_result_def)

lemma sample_run_2:
  "AddResults (map sample_result [5, 3, 8, 1, 9]) (sample_query 2) =
     Inr ((sample_query 2)\<lparr>m_results := [sample_result 1, sample_result 3]\<rparr>)"
  by (simp add: sample_query_fields sample_result_cost sample_result_eq
      AddResult_def size_less_int_def pq_push_def pq_pop_def less_IR_def)

theorem AddResult_keeps_best_witness:
  "1 \<le> m_resultsRemaining (sample_query 2) \<and>
   int (length (m_results (sample_query 2))) \<le> m_resultsRemaining (sample_query 2) \<and>
   AddResults (map sample_result [5, 3, 8, 1, 9]) (sample_query 2) =
     Inr ((sample_query 2)\<lparr>m_results := [sample_result 1, sample_result 3]\<rparr>) \<and>
   (\<exists>q'. AddResults (map sample_result [9, 1, 8, 3, 5]) (sample_query 2) = Inr q' \<and>
      sort (map m_matchPenalty (m_results q')) = [1, 3])"
proof -
  have h1: "1 \<le> m_resultsRemaining (sample_query 2)"
    and h2: "int (length (m_results (sample_query 2))) \<le> m_resultsRemaining (sample_query 2)"
    by (simp_all add: sample_query_fields)
  have p: "mset (map sample_result [9, 1, 8, 3, 5]) = mset (map sample_result [5, 3, 8, 1, 9])"
    by simp
  from AddResult_keeps_best [OF h1 h2, of "sample_result 5" "map sample_result [5, 3, 8, 1, 9]"]
  obtain q' where run: "AddResults (map sample_result [5, 3, 8, 1, 9]) (sample_query 2) = Inr q'"
    and others: "\<forall>cs'. mset cs' = mset (map sample_result [5, 3, 8, 1, 9]) \<longrightarrow>
      (\<exists>q''. AddResults cs' (sample_query 2) = Inr q'' \<and>
         sort (map m_matchPenalty (m_results q'')) = sort (map m_matchPenalty (m_results q')))"
    by blast
  from run have "q' = (sample_query 2)\<lparr>m_results := [sample_result 1, sample_result 3]\<rparr>"
    by (simp only: sample_run_2 sum.inject)
  then have "sort (map m_matchPenalty (m_results q')) = [1, 3]"
    by (simp add: sample_result_cost)
  with others p
  have "\<exists>q'. AddResults (map sample_result [9, 1, 8, 3, 5]) (sample_query 2) = Inr q' \<and>
      sort (map m_matchPenalty (m_results q')) = [1, 3]"
    by metis
  with h1 h2 sample_run_2 show ?thesis by blast
qed

section \<open>Flushing\<close>

lemma drain_Nil: "drain [] = []"
  by (simp add: drain.simps)

lemma drain_top: "pq_top xs = Some t \<Longrightarrow> drain xs = t # drain (remove1 t xs)"
  by (subst drain.simps) (simp add: pq_pop_def)

lemma drain_sorted:
  "mset (drain xs) = mset xs \<and> sorted (rev (map m_matchPenalty (drain xs)))"
proof (induction xs rule: drain.induct)
  case (1 xs)
  show ?case
  proof (cases "pq_top xs")
    case None
    then have "xs = []" by (simp add: pq_top_None)
    then show ?thesis by (simp add: drain_Nil)
  next
    case (Some t)
    have mem: "t \<in> set xs" using Some by (rule pq_top_mem)
    from "1.IH" [OF Some] have ih: "mset (drain (remove1 t xs)) = mset (remove1 t xs)"
      "sorted (rev (map m_matchPenalty (drain (remove1 t xs))))"
      using Some by (simp_all add: pq_pop_def)
    have "set (drain (remove1 t xs)) = set (remove1 t xs)"
      using ih(1) by (metis set_mset_mset)
    then have "set (drain (remove1 t xs)) \<subseteq> set xs"
      using set_remove1_subset [of t xs] by simp
    then have le: "\<forall>x \<in> set (drain (remove1 t xs)). m_matchPenalty x \<le> m_matchPenalty t"
      using pq_top_greatest [OF Some] by blast
    have "mset (drain xs) = mset xs"
      using mem ih(1) by (simp add: drain_top [OF Some])
    moreover have "sorted (rev (map m_matchPenalty (drain xs)))"
      using ih(2) le by (simp add: drain_top [OF Some] sorted_append)
    ultimately show ?thesis by simp
  qed
qed

text \<open>
  Claim C2: \<open>FlushResults\<close> empties the collection and passes to the callback the
  final results of exactly the entries held, in ascending order of cost; the budget becomes
  the old budget minus the number of results flushed, floored at 0 (the floor is not
  reached while the collection holds at most as many entries as the budget). On an empty
  collection, with a budget that is not negative, nothing is emitted and the query is
  unchanged. With a cap of 2 and candidates of costs 5, 3, 8, 1, 9 offered in that order
  to an empty collection, the results flushed are those of the candidates of cost 1 and 3,
  in that order.
\<close>

theorem FlushResults_ascending:
  "(\<exists>rs. snd (FlushResults X q) = map (GenerateFinalResult X) rs \<and>
          mset rs = mset (m_results q) \<and> sorted (map m_matchPenalty rs)) \<and>
   fst (FlushResults X q) =
     q\<lparr>m_results := [],
       m_resultsRemaining :=
         max 0 (m_resultsRemaining q - int (length (snd (FlushResults X q))))\<rparr> \<and>
   (int (length (m_results q)) \<le> m_resultsRemaining q \<longrightarrow>
      m_resultsRemaining (fst (FlushResults X q)) =
        m_resultsRemaining q - int (length (snd (FlushResults X q)))) \<and>
   (m_results q = [] \<and> 0 \<le> m_resultsRemaining q \<longrightarrow> FlushResults X q = (q, [])) \<and>
   (m_results q = [] \<and> m_resultsRemaining q = 2 \<and>
    m_matchPenalty a = 5 \<and> m_matchPenalty b = 3 \<and> m_matchPenalty c = 8 \<and>
    m_matchPenalty d = 1 \<and> m_matchPenalty e = 9 \<longrightarrow>
      (\<exists>q'. AddResults [a, b, c, d, e] q = Inr q' \<and>
         snd (FlushResults X q') = [GenerateFinalResult X d, GenerateFinalResult X b]))"
proof -
  let ?rs = "rev (drain (m_results q))"
  have out: "snd (FlushResults X q) = map (GenerateFinalResult X) ?rs"
    by (simp add: FlushResults_def Let_def rev_map)
  have "mset ?rs = mset (m_results q)" "sorted (map m_matchPenalty ?rs)"
    using drain_sorted [of "m_results q"] by (simp_all add: rev_map)
  with out have c1: "\<exists>rs. snd (FlushResults X q) = map (GenerateFinalResult X) rs \<and>
          mset rs = mset (m_results q) \<and> sorted (map m_matchPenalty rs)"
    by blast
  have c2: "fst (FlushResults X q) =
     q\<lparr>m_results := [],
       m_resultsRemaining :=
         max 0 (m_resultsRemaining q - int (length (snd (FlushResults X q))))\<rparr>"
    by (simp add: FlushResults_def Let_def)
  have len: "length (snd (FlushResults X q)) = length (m_results q)"
    using drain_sorted [of "m_results q"] by (simp add: out) (metis size_mset)
  have c3: "int (length (m_results q)) \<le> m_resultsRemaining q \<longrightarrow>
      m_resultsRemaining (fst (FlushResults X q)) =
        m_resultsRemaining q - int (length (snd (FlushResults X q)))"
    by (subst c2) (simp add: len)
  have c4: "m_results q = [] \<and> 0 \<le> m_resultsRemaining q \<longrightarrow> FlushResults X q = (q, [])"
    by (simp add: FlushResults_def Let_def drain_Nil)
  have c5: "m_results q = [] \<and> m_resultsRemaining q = 2 \<and>
    m_matchPenalty a = 5 \<and> m_matchPenalty b = 3 \<and> m_matchPenalty c = 8 \<and>
    m_matchPenalty d = 1 \<and> m_matchPenalty e = 9 \<longrightarrow>
      (\<exists>q'. AddResults [a, b, c, d, e] q = Inr q' \<and>
         snd (FlushResults X q') = [GenerateFinalResult X d, GenerateFinalResult X b])"
  proof
    assume h: "m_results q = [] \<and> m_resultsRemaining q = 2 \<and>
      m_matchPenalty a = 5 \<and> m_matchPenalty b = 3 \<and> m_matchPenalty c = 8 \<and>
      m_matchPenalty d = 1 \<and> m_matchPenalty e = 9"
    then have ne: "a \<noteq> b" "d \<noteq> b" by auto
    have run: "AddResults [a, b, c, d, e] q = Inr (q\<lparr>m_results := [d, b]\<rparr>)"
      using h ne
      by (simp add: AddResult_def size_less_int_def pq_push_def pq_pop_def less_IR_def)
    have t1: "pq_top [d, b] = Some b" using h by (simp add: less_IR_def)
    have t2: "pq_top [d] = Some d" by simp
    have "drain [d, b] = [b, d]"
      using ne by (simp add: drain_top [OF t1] drain_top [OF t2] drain_Nil)
    then have "snd (FlushResults X (q\<lparr>m_results := [d, b]\<rparr>)) =
        [GenerateFinalResult X d, GenerateFinalResult X b]"
      by (simp add: FlushResults_def Let_def)
    with run show "\<exists>q'. AddResults [a, b, c, d, e] q = Inr q' \<and>
         snd (FlushResults X q') = [GenerateFinalResult X d, GenerateFinalResult X b]"
      by blast
  qed
  from c1 c2 c3 c4 c5 show ?thesis by blast
qed

theorem FlushResults_ascending_witness:
  "m_results (sample_query 2) = [] \<and> m_resultsRemaining (sample_query 2) = 2 \<and>
   FlushResults sample (sample_query 2) = (sample_query 2, []) \<and>
   (\<exists>q'. AddResults (map sample_result [5, 3, 8, 1, 9]) (sample_query 2) = Inr q' \<and>
      snd (FlushResults sample q') =
        [GenerateFinalResult sample (sample_result 1),
         GenerateFinalResult sample (sample_result 3)] \<and>
      m_resultsRemaining (fst (FlushResults sample q')) = 0)"
proof -
  have f: "m_results (sample_query 2) = []" "m_resultsRemaining (sample_query 2) = 2"
    by (simp_all add: sample_query_fields)
  note inst = FlushResults_ascending [of sample _ "sample_result 5" "sample_result 3"
      "sample_result 8" "sample_result 1" "sample_result 9"]
  from inst [of "sample_query 2"] f
  have e: "FlushResults sample (sample_query 2) = (sample_query 2, [])" by simp
  from inst [of "sample_query 2"] f
  obtain q' where q': "AddResults (map sample_result [5, 3, 8, 1, 9]) (sample_query 2) = Inr q'"
    "snd (FlushResults sample q') =
        [GenerateFinalResult sample (sample_result 1),
         GenerateFinalResult sample (sample_result 3)]"
    by (auto simp: sample_result_cost)
  from q'(1) have "q' = (sample_query 2)\<lparr>m_results := [sample_result 1, sample_result 3]\<rparr>"
    by (simp only: sample_run_2 sum.inject)
  then have "int (length (m_results q')) \<le> m_resultsRemaining q'" "m_resultsRemaining q' = 2"
    by (simp_all add: sample_query_fields)
  with inst [of q'] q'(2) have "m_resultsRemaining (fst (FlushResults sample q')) = 0"
    by simp
  with f e q' show ?thesis by blast
qed


section \<open>What the feature processor accepts\<close>

text \<open>
  Claim C10: when the flag is not set, the feature processor offers a feature to the ranker
  exactly when its prefix-match score is within the prefix ceiling, its keyword-match score
  is within the keyword ceiling 512 and the lower bound of its drawable scale range for
  text is not negative; otherwise it leaves the query as it is. In particular a feature
  with a negative lower bound is dropped even when both scores are 0.
\<close>

theorem FeatureProcessor_accepts:
  "(let matcher = MatchFeature X
          (unskipped_keywords (keywordsSkipMask q feature) (m_keywords q)) (m_prefix q) feature;
        accepted =
          (PrefixMatchScore matcher \<le> GetMaxPrefixMatchScore (int (length (m_prefix q))) \<and>
           MatchScore matcher \<le> 512 \<and> 0 \<le> fst (f_textScaleRange feature))
    in (accepted \<longrightarrow>
          FeatureProcessor X False feature q =
            AddResult (IntermediateResult_feature feature (BestMatchName matcher)
              (MatchScore matcher) (fst (f_textScaleRange feature))) q) \<and>
       (\<not> accepted \<longrightarrow> FeatureProcessor X False feature q = Inr q) \<and>
       (PrefixMatchScore matcher = 0 \<and> MatchScore matcher = 0 \<and>
        fst (f_textScaleRange feature) < 0 \<longrightarrow> FeatureProcessor X False feature q = Inr q))"
  by (auto simp: FeatureProcessor_def Let_def GetMaxKeywordMatchScore_def)

theorem FeatureProcessor_accepts_witness:
  "FeatureProcessor sample False
     \<lparr>f_types = [], f_names = [''cafe''], f_textScaleRange = (- 1, - 1)\<rparr> (sample_query 10) =
     Inr (sample_query 10) \<and>
   FeatureProcessor sample False
     \<lparr>f_types = [], f_names = [''cafe''], f_textScaleRange = (10, 17)\<rparr> (sample_query 10) =
     Inr ((sample_query 10)\<lparr>m_results :=
       [\<lparr>m_str = ''cafe'', m_completionString = [], m_matchPenalty = 0,
         m_minVisibleScale = 10\<rparr>]\<rparr>)"
proof -
  have m: "MatchFeature sample ks [] \<lparr>f_types = [], f_names = [''cafe''], f_textScaleRange = r\<rparr> =
      \<lparr>PrefixMatchScore = 0,
       MatchScore = (if list_all (\<lambda>k. ascii ''cafe'' = k) ks then 0 else 513),
       BestMatchName = ''cafe''\<rparr>" for ks r
    by (simp add: sample_def sample_matcher_def GetMaxKeywordMatchScore_def)
  have u: "unskipped_keywords b [] = []" for b
    by (simp add: unskipped_keywords_def)
  have a: "AddResult c (sample_query 10) = Inr ((sample_query 10)\<lparr>m_results := [c]\<rparr>)" for c
    by (simp add: AddResult_def size_less_int_def pq_push_def sample_query_fields)
  show ?thesis
    using FeatureProcessor_accepts [of sample "sample_query 10"
        "\<lparr>f_types = [], f_names = [''cafe''], f_textScaleRange = (- 1, - 1)\<rparr>"]
      FeatureProcessor_accepts [of sample "sample_query 10"
        "\<lparr>f_types = [], f_names = [''cafe''], f_textScaleRange = (10, 17)\<rparr>"]
    by (simp add: Let_def sample_query_fields m u a GetMaxPrefixMatchScore_def
        IntermediateResult_feature_def)
qed


section \<open>Skip masks\<close>

text \<open>\<open>(1 << n) - 1\<close> and its shifts, bit by bit (\<open>push_bit n 1\<close> is \<open>2 ^ n\<close>).\<close>

lemma bit_low_mask: "bit (2 ^ n - 1 :: u32) i \<longleftrightarrow> i < n \<and> i < 32"
  by (auto simp: bit_mask_iff simp flip: mask_eq_exp_minus_1)

lemma bit_shifted_mask:
  "bit (push_bit k (2 ^ n - 1) :: u32) i \<longleftrightarrow> k \<le> i \<and> i < k + n \<and> i < 32"
  by (auto simp: bit_push_bit_iff bit_mask_iff simp flip: mask_eq_exp_minus_1)

lemma test_bit_clear: "i < 32 \<Longrightarrow> (w :: u32) AND 2 ^ i = 0 \<longleftrightarrow> \<not> bit w i"
  by (simp add: and_exp_eq_0_iff_not_bit)

lemma or_types_lookup:
  "(case or_types tys bits m ty of None \<Rightarrow> 0 | Some v \<Rightarrow> v) =
     (if ty \<in> set tys then (case m ty of None \<Rightarrow> 0 | Some v \<Rightarrow> v) OR bits
      else (case m ty of None \<Rightarrow> 0 | Some v \<Rightarrow> v))"
  by (induction tys arbitrary: m) (auto simp: ac_simps)

lemma bit_fold_or:
  "bit (fold (\<lambda>ty (acc :: u32). acc OR g ty) tys a) i \<longleftrightarrow>
     bit a i \<or> (\<exists>ty \<in> set tys. bit (g ty) i)"
  by (induction tys arbitrary: a) (auto simp: bit_or_iff)

lemma bit_keywordsSkipMask:
  "bit (keywordsSkipMask q feature) i \<longleftrightarrow>
     (\<exists>ty \<in> set (f_types feature). bit (GetKeywordsToSkipForType q ty) i)"
  by (simp add: keywordsSkipMask_def bit_fold_or)

lemma unskipped_keywords_bits:
  "length kws \<le> 32 \<Longrightarrow>
   unskipped_keywords w kws =
     map (\<lambda>i. kws ! i) (filter (\<lambda>i. \<not> bit w i) [0 ..< length kws])"
proof -
  assume len: "length kws \<le> 32"
  have "filter (\<lambda>i. w AND push_bit i 1 = 0) [0 ..< length kws] =
      filter (\<lambda>i. \<not> bit w i) [0 ..< length kws]"
    using len by (intro filter_cong refl) (simp add: test_bit_clear)
  with len show ?thesis by (simp add: unskipped_keywords_def min_def)
qed

lemma synonym_step_keywords:
  assumes kw: "m_keywords q \<noteq> []"
  shows "synonym_step X c s (q, b, p) =
    (let tokens = SplitUniString X (NormalizeAndSimplifyString X (m_name s));
         n = length tokens; sz = length (m_keywords q);
         m1 = (if n \<le> sz \<and> take n (m_keywords q) = tokens
               then or_types (m_types c) (push_bit n 1 - 1) (m_keywordsToSkipForType q)
               else m_keywordsToSkipForType q);
         m2 = (if n \<le> sz \<and> drop (sz - n) (m_keywords q) = tokens
               then or_types (m_types c) (push_bit (sz - n) (push_bit n 1 - 1)) m1
               else m1)
     in (q\<lparr>m_keywordsToSkipForType := m2\<rparr>, b, p))"
  using kw by (simp add: synonym_step_def Let_def)

text \<open>
  One step of the loop over the synonyms, for a query with 1 to 31 keywords: the step
  changes nothing but the skip masks, and sets exactly the bits of the positions that the
  synonym matches at the start or at the end of the keywords, in the masks of the types of
  the entry.
\<close>

lemma synonym_step_bits:
  assumes "m_keywords q \<noteq> []" and "length (m_keywords q) \<le> 31"
  shows
    "(let tokens = SplitUniString X (NormalizeAndSimplifyString X (m_name s));
          n = length tokens; sz = length (m_keywords q);
          atStart = (take n (m_keywords q) = tokens);
          atEnd = (n \<le> sz \<and> drop (sz - n) (m_keywords q) = tokens)
      in \<exists>q'. synonym_step X c s (q, b, p) = (q', b, p) \<and>
           q' = q\<lparr>m_keywordsToSkipForType := m_keywordsToSkipForType q'\<rparr> \<and>
           (\<forall>ty i. bit (GetKeywordsToSkipForType q' ty) i \<longleftrightarrow>
              bit (GetKeywordsToSkipForType q ty) i \<or>
              ty \<in> set (m_types c) \<and>
                (atStart \<and> i < n \<or> atEnd \<and> sz - n \<le> i \<and> i < sz)) \<and>
           (\<forall>ty \<in> set (f_types feature) \<inter> set (m_types c). \<forall>i.
              atStart \<and> i < n \<or> atEnd \<and> sz - n \<le> i \<and> i < sz \<longrightarrow>
                bit (keywordsSkipMask q' feature) i) \<and>
           unskipped_keywords (keywordsSkipMask q' feature) (m_keywords q') =
             map (\<lambda>i. m_keywords q ! i)
               (filter (\<lambda>i. \<not> bit (keywordsSkipMask q' feature) i) [0 ..< sz])) \<and>
     (\<forall>i. bit (keywordsSkipMask q feature) i \<longleftrightarrow>
        (\<exists>ty \<in> set (f_types feature). bit (GetKeywordsToSkipForType q ty) i)) \<and>
     unskipped_keywords (keywordsSkipMask q feature) (m_keywords q) =
       map (\<lambda>i. m_keywords q ! i)
         (filter (\<lambda>i. \<not> bit (keywordsSkipMask q feature) i) [0 ..< length (m_keywords q)])"
proof -
  define tokens where "tokens = SplitUniString X (NormalizeAndSimplifyString X (m_name s))"
  define n where "n = length tokens"
  define sz where "sz = length (m_keywords q)"
  define atStart where "atStart \<longleftrightarrow> take n (m_keywords q) = tokens"
  define atEnd where "atEnd \<longleftrightarrow> n \<le> sz \<and> drop (sz - n) (m_keywords q) = tokens"
  define m1 where "m1 = (if n \<le> sz \<and> atStart
               then or_types (m_types c) (push_bit n 1 - 1) (m_keywordsToSkipForType q)
               else m_keywordsToSkipForType q)"
  define m2 where "m2 = (if atEnd
               then or_types (m_types c) (push_bit (sz - n) (push_bit n 1 - 1)) m1
               else m1)"
  define q' where "q' = q\<lparr>m_keywordsToSkipForType := m2\<rparr>"
  have sz31: "sz \<le> 31" using assms(2) by (simp add: sz_def)
  have step: "synonym_step X c s (q, b, p) = (q', b, p)"
    unfolding synonym_step_keywords [OF assms(1)] Let_def q'_def m2_def m1_def
      atStart_def atEnd_def n_def sz_def tokens_def
    by simp
  have same: "q' = q\<lparr>m_keywordsToSkipForType := m_keywordsToSkipForType q'\<rparr>"
    by (simp add: q'_def)
  have start_le: "n \<le> sz" if a: "atStart"
  proof -
    from a have "length (take n (m_keywords q)) = n"
      unfolding atStart_def n_def by (rule arg_cong)
    then show ?thesis by (simp add: sz_def)
  qed
  have end_le: "n \<le> sz" if "atEnd"
    using that by (simp add: atEnd_def)
  have l1: "(case m1 ty of None \<Rightarrow> 0 | Some v \<Rightarrow> v) =
      (if atStart \<and> ty \<in> set (m_types c)
       then GetKeywordsToSkipForType q ty OR (push_bit n 1 - 1)
       else GetKeywordsToSkipForType q ty)" for ty
    using start_le by (auto simp: m1_def or_types_lookup GetKeywordsToSkipForType_def)
  have l2: "GetKeywordsToSkipForType q' ty =
      (if atEnd \<and> ty \<in> set (m_types c)
       then (case m1 ty of None \<Rightarrow> 0 | Some v \<Rightarrow> v) OR
            push_bit (sz - n) (push_bit n 1 - 1)
       else (case m1 ty of None \<Rightarrow> 0 | Some v \<Rightarrow> v))" for ty
    by (simp add: q'_def m2_def or_types_lookup GetKeywordsToSkipForType_def)
  have bits: "bit (GetKeywordsToSkipForType q' ty) i \<longleftrightarrow>
      bit (GetKeywordsToSkipForType q ty) i \<or>
      ty \<in> set (m_types c) \<and> (atStart \<and> i < n \<or> atEnd \<and> sz - n \<le> i \<and> i < sz)"
    for ty i
  proof -
    have a: "i < n \<and> i < 32 \<longleftrightarrow> i < n" if "atStart"
      using start_le [OF that] sz31 by auto
    have b: "sz - n \<le> i \<and> i < sz - n + n \<and> i < 32 \<longleftrightarrow> sz - n \<le> i \<and> i < sz"
      if "atEnd"
      using end_le [OF that] sz31 by auto
    show ?thesis
    proof (cases "ty \<in> set (m_types c)")
      case False
      then show ?thesis by (simp add: l2 l1)
    next
      case True
      show ?thesis
      proof (cases atStart; cases atEnd)
        assume "atStart" "atEnd"
        then show ?thesis
          using True a b by (simp add: l2 l1 bit_or_iff bit_low_mask bit_shifted_mask)
      next
        assume "atStart" "\<not> atEnd"
        then show ?thesis
          using True a by (simp add: l2 l1 bit_or_iff bit_low_mask)
      next
        assume "\<not> atStart" "atEnd"
        then show ?thesis
          using True b by (simp add: l2 l1 bit_or_iff bit_shifted_mask)
      next
        assume "\<not> atStart" "\<not> atEnd"
        then show ?thesis
          using True by (simp add: l2 l1)
      qed
    qed
  qed
  have kq': "m_keywords q' = m_keywords q" by (simp add: q'_def)
  have feat: "\<forall>ty \<in> set (f_types feature) \<inter> set (m_types c). \<forall>i.
      atStart \<and> i < n \<or> atEnd \<and> sz - n \<le> i \<and> i < sz \<longrightarrow>
        bit (keywordsSkipMask q' feature) i"
    unfolding bit_keywordsSkipMask using bits by blast
  have sel': "unskipped_keywords (keywordsSkipMask q' feature) (m_keywords q') =
      map (\<lambda>i. m_keywords q ! i)
        (filter (\<lambda>i. \<not> bit (keywordsSkipMask q' feature) i) [0 ..< sz])"
    using assms(2) by (simp add: kq' unskipped_keywords_bits sz_def)
  have sel: "unskipped_keywords (keywordsSkipMask q feature) (m_keywords q) =
      map (\<lambda>i. m_keywords q ! i)
        (filter (\<lambda>i. \<not> bit (keywordsSkipMask q feature) i) [0 ..< length (m_keywords q)])"
    using assms(2) by (simp add: unskipped_keywords_bits)
  have ex: "\<exists>q'. synonym_step X c s (q, b, p) = (q', b, p) \<and>
           q' = q\<lparr>m_keywordsToSkipForType := m_keywordsToSkipForType q'\<rparr> \<and>
           (\<forall>ty i. bit (GetKeywordsToSkipForType q' ty) i \<longleftrightarrow>
              bit (GetKeywordsToSkipForType q ty) i \<or>
              ty \<in> set (m_types c) \<and>
                (atStart \<and> i < n \<or> atEnd \<and> sz - n \<le> i \<and> i < sz)) \<and>
           (\<forall>ty \<in> set (f_types feature) \<inter> set (m_types c). \<forall>i.
              atStart \<and> i < n \<or> atEnd \<and> sz - n \<le> i \<and> i < sz \<longrightarrow>
                bit (keywordsSkipMask q' feature) i) \<and>
           unskipped_keywords (keywordsSkipMask q' feature) (m_keywords q') =
             map (\<lambda>i. m_keywords q ! i)
               (filter (\<lambda>i. \<not> bit (keywordsSkipMask q' feature) i) [0 ..< sz])"
    using step same bits feat sel' by blast
  show ?thesis
    unfolding Let_def
    using ex [unfolded atStart_def atEnd_def n_def sz_def tokens_def] sel
      bit_keywordsSkipMask [of q feature]
    by blast
qed

lemma cafe_roma_fields:
  "m_keywords cafe_roma = [[99, 97, 102, 101], [114, 111, 109, 97]]"
  "m_prefix cafe_roma = []" "m_keywordsToSkipForType cafe_roma = Map.empty"
  "m_results cafe_roma = []" "m_resultsRemaining cafe_roma = 10"
  "m_pCategories cafe_roma = Some [sample_category]" "m_pTrieRoot cafe_roma = None"
  by (simp_all add: cafe_roma_def Query_ctor_def sample_def ascii_def Let_def)

lemma sample_tokens_cafe:
  "SplitUniString sample (NormalizeAndSimplifyString sample (m_name sample_synonym)) =
     [[99, 97, 102, 101]]"
  by (simp add: sample_def ascii_def sample_synonym_def)

lemma cafe_roma_step:
  "synonym_step sample sample_category sample_synonym (cafe_roma, [], 0) =
     (cafe_roma\<lparr>m_keywordsToSkipForType := [7 \<mapsto> 1]\<rparr>, [], 0)"
  by (simp add: synonym_step_def sample_tokens_cafe cafe_roma_fields Let_def
      sample_category_def)

section \<open>Completion suggestions\<close>

lemma synonym_step_prefix:
  assumes "m_keywords q = []" and "m_prefix q \<noteq> []"
  shows "synonym_step X c s (q, best, pen) =
    (if m_prefixLengthToSuggest s \<le> length (m_prefix q) \<and>
        synonym_penalty
          (MatchNamePrefix X (m_prefix q) (NormalizeAndSimplifyString X (m_name s)))
          (m_prefixLengthToSuggest s) < pen
     then (q, m_name s,
           synonym_penalty
             (MatchNamePrefix X (m_prefix q) (NormalizeAndSimplifyString X (m_name s)))
             (m_prefixLengthToSuggest s))
     else (q, best, pen))"
  using assms by (simp add: synonym_step_def Let_def)

lemma fold_synonym_step_prefix:
  fixes X :: "'r externals" and q :: Query
  assumes "m_keywords q = []" and "m_prefix q \<noteq> []"
  defines "penalty \<equiv> \<lambda>s. synonym_penalty
      (MatchNamePrefix X (m_prefix q) (NormalizeAndSimplifyString X (m_name s)))
      (m_prefixLengthToSuggest s)"
  shows "\<exists>best' pen'. fold (synonym_step X c) ss (q, best, pen) = (q, best', pen') \<and>
    pen' \<le> pen \<and>
    (\<forall>s \<in> set ss. m_prefixLengthToSuggest s \<le> length (m_prefix q) \<longrightarrow> pen' \<le> penalty s) \<and>
    (pen' < pen \<longrightarrow>
       (\<exists>s \<in> set ss. m_prefixLengthToSuggest s \<le> length (m_prefix q) \<and>
          penalty s = pen' \<and> best' = m_name s)) \<and>
    (pen' = pen \<longrightarrow> best' = best)"
proof (induction ss arbitrary: best pen)
  case Nil
  show ?case by simp
next
  case (Cons s ss)
  define better where
    "better \<longleftrightarrow> m_prefixLengthToSuggest s \<le> length (m_prefix q) \<and> penalty s < pen"
  define b1 where "b1 = (if better then m_name s else best)"
  define p1 where "p1 = (if better then penalty s else pen)"
  have step: "synonym_step X c s (q, best, pen) = (q, b1, p1)"
    unfolding synonym_step_prefix [OF assms(1,2)] b1_def p1_def better_def penalty_def
    by simp
  from Cons.IH [of b1 p1] obtain best' pen' where
    r: "fold (synonym_step X c) ss (q, b1, p1) = (q, best', pen')" "pen' \<le> p1"
      "\<forall>s \<in> set ss. m_prefixLengthToSuggest s \<le> length (m_prefix q) \<longrightarrow> pen' \<le> penalty s"
      "pen' < p1 \<longrightarrow>
         (\<exists>s \<in> set ss. m_prefixLengthToSuggest s \<le> length (m_prefix q) \<and>
            penalty s = pen' \<and> best' = m_name s)"
      "pen' = p1 \<longrightarrow> best' = b1"
    by blast
  have run: "fold (synonym_step X c) (s # ss) (q, best, pen) = (q, best', pen')"
    using step r(1) by simp
  have le: "p1 \<le> pen" by (simp add: p1_def better_def)
  have ps: "m_prefixLengthToSuggest s \<le> length (m_prefix q) \<longrightarrow> p1 \<le> penalty s"
    by (auto simp: p1_def better_def)
  have c1: "pen' \<le> pen" using r(2) le by simp
  have c2: "\<forall>s' \<in> set (s # ss).
      m_prefixLengthToSuggest s' \<le> length (m_prefix q) \<longrightarrow> pen' \<le> penalty s'"
    using r(2,3) ps by auto
  have c3: "pen' < pen \<longrightarrow>
       (\<exists>s' \<in> set (s # ss). m_prefixLengthToSuggest s' \<le> length (m_prefix q) \<and>
          penalty s' = pen' \<and> best' = m_name s')"
  proof
    assume lt: "pen' < pen"
    show "\<exists>s' \<in> set (s # ss). m_prefixLengthToSuggest s' \<le> length (m_prefix q) \<and>
          penalty s' = pen' \<and> best' = m_name s'"
    proof (cases "pen' < p1")
      case True
      with r(4) show ?thesis by auto
    next
      case False
      with r(2) have eq: "pen' = p1" by simp
      with lt have "better" by (auto simp: p1_def split: if_splits)
      with eq r(5) show ?thesis by (auto simp: p1_def b1_def better_def)
    qed
  qed
  have c4: "pen' = pen \<longrightarrow> best' = best"
  proof
    assume eq: "pen' = pen"
    with r(2) le have p: "p1 = pen" by simp
    then have "\<not> better" by (auto simp: p1_def better_def split: if_splits)
    with r(5) eq p show "best' = best" by (simp add: b1_def)
  qed
  from run c1 c2 c3 c4 show ?case by blast
qed

lemma shift_add_eq_or:
  "n < 32 \<Longrightarrow> push_bit 5 (x :: u32) + of_nat n = push_bit 5 x OR of_nat n"
proof (rule disjunctive_add_eq_or)
  assume n: "n < 32"
  have "\<not> (bit (push_bit 5 x) i \<and> bit (of_nat n :: u32) i)" for i
  proof (cases "i < 5")
    case True
    then show ?thesis by (simp add: bit_push_bit_iff)
  next
    case False
    have "n < 2 ^ 5" using n by simp
    also have "(2::nat) ^ 5 \<le> 2 ^ i" using False by (intro power_increasing) auto
    finally have "\<not> bit n i" by (simp add: bit_iff_odd)
    then show ?thesis by (simp add: bit_of_nat_iff)
  qed
  then show "push_bit 5 x AND of_nat n = 0"
    by (simp add: bit_eq_iff bit_and_iff)
qed

lemma sint_small:
  fixes w :: u32
  assumes "unat w < 2 ^ 31"
  shows "sint w = int (unat w)"
proof -
  from assms have "int (unat w) < int (2 ^ 31)" by (simp only: of_nat_less_iff)
  then have lt: "uint w < 2 ^ 31" by (simp only: uint_nat of_nat_power of_nat_numeral)
  have "- (2 ^ 31) \<le> (0 :: int)" by simp
  also have "0 \<le> uint w" by (rule uint_ge_0)
  finally have ge: "- (2 ^ 31) \<le> uint w" .
  from ge lt have "signed_take_bit 31 (uint w) = uint w"
    by (rule signed_take_bit_int_eq_self)
  moreover have "sint w = signed_take_bit 31 (uint w)"
    by (simp add: sint_uint)
  ultimately show ?thesis by (simp only: uint_nat)
qed

lemma synonym_penalty_int:
  assumes "unat score < 2 ^ 26" and "n < 32"
  shows "synonym_penalty score n = 32 * int (unat score) + int n"
proof -
  have "unat score * unat (32 :: u32) < 2 ^ LENGTH(32)"
    using assms(1) by simp
  then have "unat (score * 32) = unat score * unat (32 :: u32)"
    by (rule unat_mult_lem [THEN iffD1])
  then have a: "unat (push_bit 5 score) = 32 * unat score"
    by (simp add: push_bit_eq_mult)
  have b: "unat (of_nat n :: u32) = n"
    using assms(2) by (simp add: unat_of_nat)
  have "unat (push_bit 5 score) + unat (of_nat n :: u32) < 2 ^ LENGTH(32)"
    using assms a b by simp
  then have "unat (push_bit 5 score + (of_nat n :: u32)) =
      unat (push_bit 5 score) + unat (of_nat n :: u32)"
    by (rule unat_add_lem [THEN iffD1])
  then have c: "unat (push_bit 5 score + (of_nat n :: u32)) = 32 * unat score + n"
    using a b by simp
  then have "unat (push_bit 5 score + (of_nat n :: u32)) < 2 ^ 31"
    using assms by simp
  then have "sint (push_bit 5 score + (of_nat n :: u32)) =
      int (unat (push_bit 5 score + (of_nat n :: u32)))"
    by (rule sint_small)
  with c show ?thesis by (simp add: synonym_penalty_def)
qed

lemma synonym_penalty_order:
  assumes "unat s1 < 2 ^ 26" and "unat s2 < 2 ^ 26" and "n1 < 32" and "n2 < 32"
  shows "synonym_penalty s1 n1 < synonym_penalty s2 n2 \<longleftrightarrow>
    s1 < s2 \<or> s1 = s2 \<and> n1 < n2"
proof -
  have lex: "32 * int a + int n1 < 32 * int b + int n2 \<longleftrightarrow> a < b \<or> a = b \<and> n1 < n2"
    for a b :: nat
  proof (cases a b rule: linorder_cases)
    case less
    then have "int a + 1 \<le> int b" by simp
    with less assms(3,4) show ?thesis by simp
  next
    case equal
    then show ?thesis by simp
  next
    case greater
    then have "int b + 1 \<le> int a" by simp
    with greater assms(3,4) show ?thesis by simp
  qed
  show ?thesis
    unfolding synonym_penalty_int [OF assms(1,3)] synonym_penalty_int [OF assms(2,4)] lex
    by (simp add: word_less_nat_alt word_unat_eq_iff)
qed

lemma ca_query_fields:
  "m_keywords ca_query = []" "m_prefix ca_query = [99, 97]"
  "m_results ca_query = []" "m_resultsRemaining ca_query = 10"
  "m_pCategories ca_query = Some [sample_category, sample_casino]"
  by (simp_all add: ca_query_def Query_ctor_def sample_def ascii_def Let_def)

lemma caf_query_fields:
  "m_keywords caf_query = []" "m_prefix caf_query = [99, 97, 102]"
  "m_results caf_query = []" "m_resultsRemaining caf_query = 10"
  "m_pCategories caf_query = Some [sample_category, sample_casino]"
  by (simp_all add: caf_query_def Query_ctor_def sample_def ascii_def Let_def)

lemma sample_prefix_scores:
  "MatchNamePrefix sample [99, 97] (NormalizeAndSimplifyString sample ''cafe'') = 0"
  "MatchNamePrefix sample [99, 97] (NormalizeAndSimplifyString sample ''casino'') = 0"
  "MatchNamePrefix sample [99, 97, 102] (NormalizeAndSimplifyString sample ''cafe'') = 0"
  "MatchNamePrefix sample [99, 97, 102] (NormalizeAndSimplifyString sample ''casino'') = 257"
  by (simp_all add: sample_def ascii_def sample_prefix_score_def PrefixMatch_def
      GetMaxPrefixMatchScore_def)

lemma sample_penalties:
  "initial_penalty [99, 97] = 63" "initial_penalty [99, 97, 102] = 8223"
  "synonym_penalty 0 2 = 2" "synonym_penalty 257 2 = 8226"
  by (simp_all add: initial_penalty_def synonym_penalty_def GetMaxPrefixMatchScore_def)

text \<open>
  Claim C8, as stated, fails: the best suggestion is kept for each entry of the dictionary,
  not for the dictionary as a whole. The prefix "ca" with the entries "cafe" and "casino"
  yields two suggestions.
\<close>

theorem category_phase_two_suggestions_counterexample:
  "category_phase sample ca_query =
     Inr (ca_query\<lparr>m_results :=
       [IntermediateResult_suggestion ''casino'' ''casino '' 2,
        IntermediateResult_suggestion ''cafe'' ''cafe '' 2]\<rparr>) \<and>
   (case category_phase sample ca_query of Inl e \<Rightarrow> 0 | Inr q' \<Rightarrow> length (m_results q')) = 2"
  by (simp add: category_phase_def category_step_def synonym_step_def ca_query_fields
      sample_category_def sample_casino_def sample_synonym_def sample_prefix_scores
      sample_penalties AddResult_def size_less_int_def pq_push_def Let_def)

text \<open>
  Claim C8, amended: when the query has no keywords but a non-empty prefix, the resolver
  considers, for each entry of the dictionary separately, only the synonyms whose trigger
  length is at most the prefix length, scores each with the penalty
  \<open>(prefixMatchCost << 5) + triggerLength\<close> and keeps the lowest penalty of the entry that
  is below the initial bound \<open>((ceiling + 1) << 5) - 1\<close>, with the name of a synonym that
  has it; it offers one completion suggestion for every entry whose kept name is not empty.
  For trigger lengths below 32 the sum is the bitwise or, and for match costs below \<open>2^26\<close>
  the penalties are ordered by match cost first and trigger length second.
\<close>

theorem category_step_suggestion:
  fixes X :: "'r externals"
  assumes "m_keywords q = []" and "m_prefix q \<noteq> []"
  shows
    "(\<exists>best pen.
        fold (synonym_step X c) (m_synonyms c) (q, [], initial_penalty (m_prefix q)) =
          (q, best, pen) \<and>
        pen \<le> initial_penalty (m_prefix q) \<and>
        (\<forall>s \<in> set (m_synonyms c).
           m_prefixLengthToSuggest s \<le> length (m_prefix q) \<longrightarrow>
             pen \<le> synonym_penalty
               (MatchNamePrefix X (m_prefix q) (NormalizeAndSimplifyString X (m_name s)))
               (m_prefixLengthToSuggest s)) \<and>
        (pen < initial_penalty (m_prefix q) \<longrightarrow>
           (\<exists>s \<in> set (m_synonyms c).
              m_prefixLengthToSuggest s \<le> length (m_prefix q) \<and>
              synonym_penalty
                (MatchNamePrefix X (m_prefix q) (NormalizeAndSimplifyString X (m_name s)))
                (m_prefixLengthToSuggest s) = pen \<and>
              best = m_name s)) \<and>
        (pen = initial_penalty (m_prefix q) \<longrightarrow> best = []) \<and>
        category_step X c q =
          (if best \<noteq> []
           then AddResult (IntermediateResult_suggestion best (best @ '' '') pen) q
           else Inr q)) \<and>
     category_loop X (c # cs) q =
       (case category_step X c q of Inl e \<Rightarrow> Inl e | Inr q' \<Rightarrow> category_loop X cs q') \<and>
     (n < 32 \<longrightarrow> synonym_penalty score n = sint (push_bit 5 score OR (of_nat n :: u32))) \<and>
     (unat s1 < 2 ^ 26 \<and> unat s2 < 2 ^ 26 \<and> n1 < 32 \<and> n2 < 32 \<longrightarrow>
        (synonym_penalty s1 n1 < synonym_penalty s2 n2 \<longleftrightarrow> s1 < s2 \<or> s1 = s2 \<and> n1 < n2))"
proof -
  from fold_synonym_step_prefix [OF assms, of X c "m_synonyms c" "[]"
      "initial_penalty (m_prefix q)"]
  obtain best pen where
    r: "fold (synonym_step X c) (m_synonyms c) (q, [], initial_penalty (m_prefix q)) =
          (q, best, pen)"
      "pen \<le> initial_penalty (m_prefix q)"
      "\<forall>s \<in> set (m_synonyms c).
           m_prefixLengthToSuggest s \<le> length (m_prefix q) \<longrightarrow>
             pen \<le> synonym_penalty
               (MatchNamePrefix X (m_prefix q) (NormalizeAndSimplifyString X (m_name s)))
               (m_prefixLengthToSuggest s)"
      "pen < initial_penalty (m_prefix q) \<longrightarrow>
           (\<exists>s \<in> set (m_synonyms c).
              m_prefixLengthToSuggest s \<le> length (m_prefix q) \<and>
              synonym_penalty
                (MatchNamePrefix X (m_prefix q) (NormalizeAndSimplifyString X (m_name s)))
                (m_prefixLengthToSuggest s) = pen \<and>
              best = m_name s)"
      "pen = initial_penalty (m_prefix q) \<longrightarrow> best = []"
    by blast
  have step: "category_step X c q =
      (if best \<noteq> []
       then AddResult (IntermediateResult_suggestion best (best @ '' '') pen) q
       else Inr q)"
    by (simp add: category_step_def r(1))
  have loop: "category_loop X (c # cs) q =
       (case category_step X c q of Inl e \<Rightarrow> Inl e | Inr q' \<Rightarrow> category_loop X cs q')"
    by simp
  have orr: "n < 32 \<longrightarrow> synonym_penalty score n = sint (push_bit 5 score OR (of_nat n :: u32))"
    by (simp add: synonym_penalty_def shift_add_eq_or)
  have ord: "unat s1 < 2 ^ 26 \<and> unat s2 < 2 ^ 26 \<and> n1 < 32 \<and> n2 < 32 \<longrightarrow>
        (synonym_penalty s1 n1 < synonym_penalty s2 n2 \<longleftrightarrow> s1 < s2 \<or> s1 = s2 \<and> n1 < n2)"
    using synonym_penalty_order [of s1 s2 n1 n2] by blast
  from r step loop orr ord show ?thesis by blast
qed

theorem category_step_suggestion_witness:
  "m_keywords caf_query = [] \<and> m_prefix caf_query \<noteq> [] \<and>
   category_step sample sample_category caf_query =
     Inr (caf_query\<lparr>m_results := [IntermediateResult_suggestion ''cafe'' ''cafe '' 2]\<rparr>) \<and>
   category_step sample sample_casino caf_query = Inr caf_query"
proof -
  have h: "m_keywords caf_query = []" "m_prefix caf_query \<noteq> []"
    by (simp_all add: caf_query_fields)
  have f1: "fold (synonym_step sample sample_category) (m_synonyms sample_category)
      (caf_query, [], initial_penalty (m_prefix caf_query)) = (caf_query, ''cafe'', 2)"
    by (simp add: synonym_step_def caf_query_fields sample_category_def sample_synonym_def
        sample_prefix_scores sample_penalties Let_def)
  have f2: "fold (synonym_step sample sample_casino) (m_synonyms sample_casino)
      (caf_query, [], initial_penalty (m_prefix caf_query)) = (caf_query, [], 8223)"
    by (simp add: synonym_step_def caf_query_fields sample_casino_def
        sample_prefix_scores sample_penalties Let_def)
  have a: "AddResult r caf_query = Inr (caf_query\<lparr>m_results := [r]\<rparr>)" for r
    by (simp add: AddResult_def size_less_int_def pq_push_def caf_query_fields)
  from category_step_suggestion [OF h, of sample sample_category] f1 a
  have c1: "category_step sample sample_category caf_query =
     Inr (caf_query\<lparr>m_results := [IntermediateResult_suggestion ''cafe'' ''cafe '' 2]\<rparr>)"
    by auto
  from category_step_suggestion [OF h, of sample sample_casino] f2
  have c2: "category_step sample sample_casino caf_query = Inr caf_query"
    by auto
  from h c1 c2 show ?thesis by blast
qed


section \<open>The phases keep the budget\<close>

lemma AddResult_has_budget:
  assumes "has_budget q"
  shows "\<exists>q'. AddResult c q = Inr q' \<and> has_budget q' \<and> q' = q\<lparr>m_results := m_results q'\<rparr>"
proof -
  from assms have a: "1 \<le> m_resultsRemaining q"
    and b: "int (length (m_results q)) \<le> m_resultsRemaining q"
    by (simp_all add: has_budget_def)
  from AddResult_step [OF a b, of c] obtain q' where
    q': "AddResult c q = Inr q'" "q' = q\<lparr>m_results := m_results q'\<rparr>"
      "int (length (m_results q')) \<le> m_resultsRemaining q"
    by blast
  have "m_resultsRemaining q' = m_resultsRemaining q" by (subst q'(2)) simp
  with a q'(3) have "has_budget q'" by (simp add: has_budget_def)
  with q'(1,2) show ?thesis by blast
qed

lemma has_budget_skip_update:
  "has_budget (q\<lparr>m_keywordsToSkipForType := m\<rparr>) = has_budget q"
  by (simp add: has_budget_def)

lemma synonym_step_has_budget:
  "\<exists>q' b' p'. synonym_step X c s (q, b, p) = (q', b', p') \<and> has_budget q' = has_budget q"
  by (auto simp: synonym_step_def Let_def has_budget_skip_update)

lemma fold_synonym_step_has_budget:
  "\<exists>q' b' p'. fold (synonym_step X c) ss (q, b, p) = (q', b', p') \<and>
     has_budget q' = has_budget q"
proof (induction ss arbitrary: q b p)
  case Nil
  show ?case by simp
next
  case (Cons s ss)
  from synonym_step_has_budget [of X c s q b p] obtain q1 b1 p1 where
    a: "synonym_step X c s (q, b, p) = (q1, b1, p1)" "has_budget q1 = has_budget q"
    by blast
  from Cons.IH [of q1 b1 p1] obtain q' b' p' where
    "fold (synonym_step X c) ss (q1, b1, p1) = (q', b', p')" "has_budget q' = has_budget q1"
    by blast
  with a show ?case by simp
qed

lemma category_step_has_budget:
  assumes "has_budget q"
  shows "\<exists>q'. category_step X c q = Inr q' \<and> has_budget q'"
proof -
  from fold_synonym_step_has_budget [of X c "m_synonyms c" q "[]" "initial_penalty (m_prefix q)"]
  obtain q1 b1 p1 where
    a: "fold (synonym_step X c) (m_synonyms c) (q, [], initial_penalty (m_prefix q)) =
          (q1, b1, p1)" "has_budget q1 = has_budget q"
    by blast
  with assms have ok: "has_budget q1" by simp
  show ?thesis
  proof (cases "b1 = []")
    case True
    with a ok show ?thesis by (simp add: category_step_def)
  next
    case False
    from AddResult_has_budget [OF ok, of "IntermediateResult_suggestion b1 (b1 @ '' '') p1"]
    obtain q' where "AddResult (IntermediateResult_suggestion b1 (b1 @ '' '') p1) q1 = Inr q'"
      "has_budget q'" by blast
    with a False show ?thesis by (simp add: category_step_def)
  qed
qed

lemma category_loop_has_budget:
  "has_budget q \<Longrightarrow> \<exists>q'. category_loop X cs q = Inr q' \<and> has_budget q'"
proof (induction cs arbitrary: q)
  case Nil
  then show ?case by simp
next
  case (Cons c cs)
  from category_step_has_budget [OF Cons.prems, of X c] obtain q1 where
    a: "category_step X c q = Inr q1" "has_budget q1" by blast
  from Cons.IH [OF a(2)] a(1) show ?case by simp
qed

lemma category_phase_has_budget:
  "has_budget q \<Longrightarrow> \<exists>q'. category_phase X q = Inr q' \<and> has_budget q'"
  by (cases "m_pCategories q") (simp_all add: category_phase_def category_loop_has_budget)

lemma coordinate_phase_has_budget:
  "has_budget q \<Longrightarrow> \<exists>q'. coordinate_phase W q = Inr q' \<and> has_budget q'"
  using AddResult_has_budget [of q]
  by (cases "MatchLatLon W") (auto simp: coordinate_phase_def)

lemma FeatureProcessor_has_budget:
  assumes "has_budget q"
  shows "\<exists>q'. FeatureProcessor X False feature q = Inr q' \<and> has_budget q'"
  using assms AddResult_has_budget [OF assms]
  by (auto simp: FeatureProcessor_def Let_def)

text \<open>The scan of the features: with the flag clear at every read, and in general.\<close>

lemma ForEachInRect_clear:
  "\<forall>k < length fs. \<not> fl (t + k) \<Longrightarrow>
   ForEachInRect X fl fs (q, t) = ForEachInRect X (\<lambda>_. False) fs (q, t)"
proof (induction fs arbitrary: q t)
  case Nil
  show ?case by simp
next
  case (Cons f fs)
  from Cons.prems have "\<not> fl t" by force
  moreover have "\<forall>k < length fs. \<not> fl (Suc t + k)"
    using Cons.prems by force
  ultimately show ?case
    using Cons.IH [of "Suc t"] by (simp split: sum.splits)
qed

lemma ForEachInRect_never:
  "has_budget q \<Longrightarrow>
   \<exists>q'. ForEachInRect X (\<lambda>_. False) fs (q, t) = (None, q', t + length fs) \<and> has_budget q'"
proof (induction fs arbitrary: q t)
  case Nil
  then show ?case by simp
next
  case (Cons f fs)
  from FeatureProcessor_has_budget [OF Cons.prems, of X f] obtain q1 where
    a: "FeatureProcessor X False f q = Inr q1" "has_budget q1" by blast
  from Cons.IH [OF a(2), of "Suc t"] a(1) show ?case by simp
qed


lemma local_phase_clear:
  assumes "has_budget q" and "\<forall>k < scanned W. \<not> fl (t + k)"
  shows "\<exists>q'. local_phase X fl W (q, t) = Inr (q', t + scanned W) \<and>
      local_phase X (\<lambda>_. False) W (q, t) = Inr (q', t + scanned W) \<and> has_budget q'"
proof (cases "scale_above_world W")
  case False
  with assms(1) show ?thesis by (simp add: local_phase_def scanned_def)
next
  case True
  with assms(2) have "\<forall>k < length (index_features W). \<not> fl (t + k)"
    by (simp add: scanned_def)
  then have eq: "ForEachInRect X fl (index_features W) (q, t) =
      ForEachInRect X (\<lambda>_. False) (index_features W) (q, t)"
    by (rule ForEachInRect_clear)
  from ForEachInRect_never [OF assms(1), of X "index_features W" t] obtain q' where
    "ForEachInRect X (\<lambda>_. False) (index_features W) (q, t) =
       (None, q', t + length (index_features W))" "has_budget q'"
    by blast
  with eq True show ?thesis by (simp add: local_phase_def scanned_def)
qed


lemma MatchAgainstTrie_clear:
  "\<forall>k < length cs. \<not> fl (t + k) \<Longrightarrow>
   MatchAgainstTrie fl cs (q, t) = MatchAgainstTrie (\<lambda>_. False) cs (q, t)"
proof (induction cs arbitrary: q t)
  case Nil
  show ?case by simp
next
  case (Cons c cs)
  from Cons.prems have "\<not> fl t" by force
  moreover have "\<forall>k < length cs. \<not> fl (Suc t + k)"
    using Cons.prems by force
  ultimately show ?case
    using Cons.IH [of "Suc t"] by (simp split: sum.splits)
qed

lemma MatchAgainstTrie_never:
  "has_budget q \<Longrightarrow>
   \<exists>q'. MatchAgainstTrie (\<lambda>_. False) cs (q, t) = Inr (q', t + length cs) \<and> has_budget q'"
proof (induction cs arbitrary: q t)
  case Nil
  then show ?case by simp
next
  case (Cons c cs)
  from AddResult_has_budget [OF Cons.prems, of c] obtain q1 where
    a: "AddResult c q = Inr q1" "has_budget q1" by blast
  from Cons.IH [OF a(2), of "Suc t"] a(1) show ?case by simp
qed


lemma trie_phase_clear:
  assumes "has_budget q" and "\<forall>k < offered q. \<not> fl (t + k)"
  shows "\<exists>q'. trie_phase fl (q, t) = Inr (q', t + offered q) \<and>
      trie_phase (\<lambda>_. False) (q, t) = Inr (q', t + offered q)"
proof (cases "m_pTrieRoot q")
  case None
  then show ?thesis by (simp add: trie_phase_def offered_def)
next
  case (Some cs)
  with assms(2) have "\<forall>k < length cs. \<not> fl (t + k)" by (simp add: offered_def)
  then have "MatchAgainstTrie fl cs (q, t) = MatchAgainstTrie (\<lambda>_. False) cs (q, t)"
    by (rule MatchAgainstTrie_clear)
  with MatchAgainstTrie_never [OF assms(1), of cs t] Some show ?thesis
    by (auto simp: trie_phase_def offered_def)
qed


text \<open>Everything before the first flush.\<close>

lemma before_flush_never:
  assumes "has_budget q"
  shows "\<exists>q3. before_flush X (\<lambda>_. False) W q = Inr (Some (q3, 4 + scanned W)) \<and> has_budget q3"
proof -
  from coordinate_phase_has_budget [OF assms, of W] obtain q1 where
    q1: "coordinate_phase W q = Inr q1" "has_budget q1" by blast
  from category_phase_has_budget [OF q1(2), of X] obtain q2 where
    q2: "category_phase X q1 = Inr q2" "has_budget q2" by blast
  from local_phase_clear [OF q2(2), of W "\<lambda>_. False" 3 X] obtain q3 where
    q3: "local_phase X (\<lambda>_. False) W (q2, 3) = Inr (q3, 3 + scanned W)" "has_budget q3"
    by auto
  from q1 q2 q3 show ?thesis by (simp add: before_flush_def)
qed



text \<open>Everything from the first flush on.\<close>

lemma FlushResults_fields:
  "m_results (fst (FlushResults X q)) = []"
  "m_pTrieRoot (fst (FlushResults X q)) = m_pTrieRoot q"
  "m_resultsRemaining (fst (FlushResults X q)) =
     max 0 (m_resultsRemaining q - int (length (m_results q)))"
  "\<exists>rs. snd (FlushResults X q) = map (GenerateFinalResult X) rs"
proof -
  have "length (drain (m_results q)) = length (m_results q)"
    using drain_sorted [of "m_results q"] by (metis size_mset)
  then show "m_resultsRemaining (fst (FlushResults X q)) =
      max 0 (m_resultsRemaining q - int (length (m_results q)))"
    by (simp add: FlushResults_def Let_def)
  have "snd (FlushResults X q) = map (GenerateFinalResult X) (rev (drain (m_results q)))"
    by (simp add: FlushResults_def Let_def rev_map)
  then show "\<exists>rs. snd (FlushResults X q) = map (GenerateFinalResult X) rs" by blast
qed (simp_all add: FlushResults_def Let_def)

lemma FlushResults_has_budget:
  "m_resultsRemaining (fst (FlushResults X q)) \<noteq> 0 \<Longrightarrow> has_budget (fst (FlushResults X q))"
  by (auto simp: has_budget_def FlushResults_fields max_def split: if_splits)

lemma offered_FlushResults: "offered (fst (FlushResults X q)) = offered q"
  by (simp add: offered_def FlushResults_fields)

lemma after_flush_unfold:
  "after_flush X fl (q3, t) =
     (if m_resultsRemaining (fst (FlushResults X q3)) = 0
      then Inr (snd (FlushResults X q3) @ [EmptyResult X])
      else if fl t then Inr (snd (FlushResults X q3))
      else case trie_phase fl (fst (FlushResults X q3), Suc t) of
        Inl e \<Rightarrow> Inl e
      | Inr st5 \<Rightarrow>
          if fl (snd st5) then Inr (snd (FlushResults X q3))
          else Inr (snd (FlushResults X q3) @ snd (FlushResults X (fst st5)) @
                 [EmptyResult X]))"
  by (simp add: after_flush_def case_prod_beta split: sum.splits)

lemma after_flush_exhausted:
  "m_resultsRemaining (fst (FlushResults X q3)) = 0 \<Longrightarrow>
   after_flush X fl (q3, t) = Inr (snd (FlushResults X q3) @ [EmptyResult X])"
  by (simp add: after_flush_unfold)

lemma after_flush_never:
  assumes "m_resultsRemaining (fst (FlushResults X q3)) \<noteq> 0"
  shows "\<exists>q5. trie_phase (\<lambda>_. False) (fst (FlushResults X q3), Suc t) =
        Inr (q5, Suc t + offered q3) \<and>
      after_flush X (\<lambda>_. False) (q3, t) =
        Inr (snd (FlushResults X q3) @ snd (FlushResults X q5) @ [EmptyResult X])"
proof -
  have ok: "has_budget (fst (FlushResults X q3))"
    using assms by (rule FlushResults_has_budget)
  from trie_phase_clear [OF ok, of "\<lambda>_. False" "Suc t"] obtain q5 where
    q5: "trie_phase (\<lambda>_. False) (fst (FlushResults X q3), Suc t) = Inr (q5, Suc t + offered q3)"
    by (auto simp: offered_FlushResults)
  with assms have "after_flush X (\<lambda>_. False) (q3, t) =
      Inr (snd (FlushResults X q3) @ snd (FlushResults X q5) @ [EmptyResult X])"
    by (simp add: after_flush_unfold)
  with q5 show ?thesis by blast
qed



lemma Query_ctor_has_budget: "has_budget (Query_ctor X query pCategories pTrieRoot)"
  by (simp add: has_budget_def Query_ctor_def Let_def case_prod_beta)

section \<open>The end marker\<close>

text \<open>
  Claim C3: take a query with a budget of at least 1 that holds no more entries than its
  budget (every query is constructed so). When no read of the termination flag finds it set,
  the values passed to the callback are final results of intermediate results followed by
  the end marker, which is passed once, last. When the budget is 0 after the first flush,
  the output is the first flush followed by the end marker, whatever the trie holds and
  whatever the flag says afterwards; otherwise the trie phase runs and the output is the
  first flush, the second flush and the end marker.
\<close>

theorem Search_ends_with_marker:
  assumes "1 \<le> m_resultsRemaining q"
    and "int (length (m_results q)) \<le> m_resultsRemaining q"
  shows
    "(\<exists>rs. Search X (\<lambda>_. False) W q =
        Inr (map (GenerateFinalResult X) rs @ [EmptyResult X])) \<and>
     (\<exists>q3. before_flush X (\<lambda>_. False) W q = Inr (Some (q3, 4 + scanned W)) \<and>
        (m_resultsRemaining (fst (FlushResults X q3)) = 0 \<longrightarrow>
           Search X (\<lambda>_. False) W q = Inr (snd (FlushResults X q3) @ [EmptyResult X]) \<and>
           (\<forall>fl t. after_flush X fl (q3, t) =
              Inr (snd (FlushResults X q3) @ [EmptyResult X]))) \<and>
        (m_resultsRemaining (fst (FlushResults X q3)) \<noteq> 0 \<longrightarrow>
           (\<exists>q5. trie_phase (\<lambda>_. False) (fst (FlushResults X q3), 5 + scanned W) =
                   Inr (q5, 5 + scanned W + offered q3) \<and>
              Search X (\<lambda>_. False) W q =
                Inr (snd (FlushResults X q3) @ snd (FlushResults X q5) @ [EmptyResult X])))) \<and>
     1 \<le> m_resultsRemaining (Query_ctor X query pCategories pTrieRoot) \<and>
     int (length (m_results (Query_ctor X query pCategories pTrieRoot)))
       \<le> m_resultsRemaining (Query_ctor X query pCategories pTrieRoot)"
proof -
  have ok: "has_budget q" using assms by (simp add: has_budget_def)
  from before_flush_never [OF ok, of X W] obtain q3 where
    q3: "before_flush X (\<lambda>_. False) W q = Inr (Some (q3, 4 + scanned W))" by blast
  then have s: "Search X (\<lambda>_. False) W q = after_flush X (\<lambda>_. False) (q3, 4 + scanned W)"
    by (simp add: Search_def)
  obtain rs1 where rs1: "snd (FlushResults X q3) = map (GenerateFinalResult X) rs1"
    using FlushResults_fields(4) [of X q3] by blast
  have early: "m_resultsRemaining (fst (FlushResults X q3)) = 0 \<longrightarrow>
      Search X (\<lambda>_. False) W q = Inr (snd (FlushResults X q3) @ [EmptyResult X]) \<and>
      (\<forall>fl t. after_flush X fl (q3, t) = Inr (snd (FlushResults X q3) @ [EmptyResult X]))"
    by (simp add: s after_flush_exhausted)
  have late: "m_resultsRemaining (fst (FlushResults X q3)) \<noteq> 0 \<longrightarrow>
      (\<exists>q5. trie_phase (\<lambda>_. False) (fst (FlushResults X q3), 5 + scanned W) =
              Inr (q5, 5 + scanned W + offered q3) \<and>
         Search X (\<lambda>_. False) W q =
           Inr (snd (FlushResults X q3) @ snd (FlushResults X q5) @ [EmptyResult X]))"
  proof
    assume "m_resultsRemaining (fst (FlushResults X q3)) \<noteq> 0"
    from after_flush_never [OF this, of "4 + scanned W"] s
    show "\<exists>q5. trie_phase (\<lambda>_. False) (fst (FlushResults X q3), 5 + scanned W) =
              Inr (q5, 5 + scanned W + offered q3) \<and>
         Search X (\<lambda>_. False) W q =
           Inr (snd (FlushResults X q3) @ snd (FlushResults X q5) @ [EmptyResult X])"
      by simp
  qed
  have marker: "\<exists>rs. Search X (\<lambda>_. False) W q =
      Inr (map (GenerateFinalResult X) rs @ [EmptyResult X])"
  proof (cases "m_resultsRemaining (fst (FlushResults X q3)) = 0")
    case True
    with early rs1 show ?thesis by auto
  next
    case False
    with late obtain q5 where
      q5: "Search X (\<lambda>_. False) W q =
        Inr (snd (FlushResults X q3) @ snd (FlushResults X q5) @ [EmptyResult X])"
      by blast
    obtain rs2 where "snd (FlushResults X q5) = map (GenerateFinalResult X) rs2"
      using FlushResults_fields(4) [of X q5] by blast
    with q5 rs1 have "Search X (\<lambda>_. False) W q =
        Inr (map (GenerateFinalResult X) (rs1 @ rs2) @ [EmptyResult X])"
      by simp
    then show ?thesis by blast
  qed
  have ctor: "1 \<le> m_resultsRemaining (Query_ctor X query pCategories pTrieRoot) \<and>
     int (length (m_results (Query_ctor X query pCategories pTrieRoot)))
       \<le> m_resultsRemaining (Query_ctor X query pCategories pTrieRoot)"
    using Query_ctor_has_budget [of X query pCategories pTrieRoot]
    by (simp add: has_budget_def)
  from marker q3 early late ctor show ?thesis by blast
qed

section \<open>Cancellation\<close>


text \<open>The run of the sample query "cafe roma ", phase by phase, for a budget and a trie.\<close>

lemma sample_fields:
  "MatchFeature sample = sample_matcher"
  "GenerateFinalResult sample r = (m_str r, m_completionString r)"
  "EmptyResult sample = ([], [])"
  by (simp_all add: sample_def)

lemma sample_coordinate_phase: "coordinate_phase sample_world q = Inr q"
  by (simp add: coordinate_phase_def sample_world_def)

lemma sample_category_phase:
  "category_phase sample (cafe_roma\<lparr>m_pTrieRoot := tr, m_resultsRemaining := N\<rparr>) =
     Inr (cafe_roma\<lparr>m_pTrieRoot := tr, m_resultsRemaining := N,
            m_keywordsToSkipForType := [7 \<mapsto> 1]\<rparr>)"
  by (simp add: category_phase_def category_step_def synonym_step_def cafe_roma_fields
      sample_category_def sample_tokens_cafe Let_def)

lemma sample_FeatureProcessor:
  "1 \<le> N \<Longrightarrow>
   FeatureProcessor sample False sample_feature
     (cafe_roma\<lparr>m_pTrieRoot := tr, m_resultsRemaining := N,
        m_keywordsToSkipForType := [7 \<mapsto> 1]\<rparr>) =
     Inr (cafe_roma\<lparr>m_pTrieRoot := tr, m_resultsRemaining := N,
            m_keywordsToSkipForType := [7 \<mapsto> 1],
            m_results := [IntermediateResult_feature sample_feature ''roma'' 0 10]\<rparr>)"
  by (simp add: FeatureProcessor_def keywordsSkipMask_def unskipped_keywords_def
      GetKeywordsToSkipForType_def sample_feature_def upt_rec cafe_roma_fields
      sample_fields sample_matcher_def ascii_def GetMaxKeywordMatchScore_def
      GetMaxPrefixMatchScore_def AddResult_def size_less_int_def pq_push_def Let_def)

lemma sample_before_flush:
  assumes "1 \<le> N" and "\<not> fl 0" "\<not> fl 1" "\<not> fl 2" "\<not> fl 3" "\<not> fl 4"
  shows "before_flush sample fl sample_world
      (cafe_roma\<lparr>m_pTrieRoot := tr, m_resultsRemaining := N\<rparr>) =
     Inr (Some (cafe_roma\<lparr>m_pTrieRoot := tr, m_resultsRemaining := N,
            m_keywordsToSkipForType := [7 \<mapsto> 1],
            m_results := [IntermediateResult_feature sample_feature ''roma'' 0 10]\<rparr>, 5))"
proof -
  have "index_features sample_world = [sample_feature]" "scale_above_world sample_world"
    by (simp_all add: sample_world_def)
  then show ?thesis
    using assms
    by (simp add: before_flush_def sample_coordinate_phase sample_category_phase
        local_phase_def sample_FeatureProcessor)
qed

lemma sample_flush:
  "FlushResults sample
     (cafe_roma\<lparr>m_pTrieRoot := tr, m_resultsRemaining := N,
        m_keywordsToSkipForType := [7 \<mapsto> 1],
        m_results := [IntermediateResult_feature sample_feature ''roma'' 0 10]\<rparr>) =
     (cafe_roma\<lparr>m_pTrieRoot := tr, m_resultsRemaining := max 0 (N - 1),
        m_keywordsToSkipForType := [7 \<mapsto> 1], m_results := []\<rparr>,
      [(''roma'', [])])"
proof -
  have "pq_top [IntermediateResult_feature sample_feature ''roma'' 0 10] =
      Some (IntermediateResult_feature sample_feature ''roma'' 0 10)"
    by simp
  then have d: "drain [IntermediateResult_feature sample_feature ''roma'' 0 10] =
      [IntermediateResult_feature sample_feature ''roma'' 0 10]"
    by (simp add: drain_top drain_Nil)
  have g: "GenerateFinalResult sample (IntermediateResult_feature sample_feature ''roma'' 0 10) =
      (''roma'', [])"
    by (simp add: sample_fields IntermediateResult_feature_def)
  show ?thesis
    by (simp add: FlushResults_def Let_def d g)
qed

lemma FlushResults_empty: "m_results q = [] \<Longrightarrow> snd (FlushResults X q) = []"
  by (simp add: FlushResults_def Let_def drain_Nil)

lemma cafe_roma_same: "cafe_roma\<lparr>m_pTrieRoot := None, m_resultsRemaining := 10\<rparr> = cafe_roma"
  by (simp add: cafe_roma_def Query_ctor_def Let_def case_prod_beta)

lemma sample_run:
  "Search sample (\<lambda>_. False) sample_world cafe_roma = Inr [(''roma'', []), ([], [])]"
  "Search sample (\<lambda>t. 5 \<le> t) sample_world cafe_roma = Inr [(''roma'', [])]"
  "Search sample (\<lambda>_. False) sample_world
     (cafe_roma\<lparr>m_pTrieRoot := Some [sample_result 3], m_resultsRemaining := 1\<rparr>) =
     Inr [(''roma'', []), ([], [])]"
proof -
  have a: "Search sample (\<lambda>_. False) sample_world
      (cafe_roma\<lparr>m_pTrieRoot := None, m_resultsRemaining := 10\<rparr>) =
      Inr [(''roma'', []), ([], [])]"
    by (simp add: Search_def sample_before_flush after_flush_unfold sample_flush
        trie_phase_def FlushResults_empty sample_fields)
  have b: "Search sample (\<lambda>t. 5 \<le> t) sample_world
      (cafe_roma\<lparr>m_pTrieRoot := None, m_resultsRemaining := 10\<rparr>) = Inr [(''roma'', [])]"
    by (simp add: Search_def sample_before_flush after_flush_unfold sample_flush)
  from a show "Search sample (\<lambda>_. False) sample_world cafe_roma =
      Inr [(''roma'', []), ([], [])]"
    by (simp only: cafe_roma_same)
  from b show "Search sample (\<lambda>t. 5 \<le> t) sample_world cafe_roma = Inr [(''roma'', [])]"
    by (simp only: cafe_roma_same)
  show "Search sample (\<lambda>_. False) sample_world
     (cafe_roma\<lparr>m_pTrieRoot := Some [sample_result 3], m_resultsRemaining := 1\<rparr>) =
     Inr [(''roma'', []), ([], [])]"
    by (simp add: Search_def sample_before_flush after_flush_unfold sample_flush sample_fields)
qed



theorem Search_ends_with_marker_witness:
  "1 \<le> m_resultsRemaining cafe_roma \<and>
   int (length (m_results cafe_roma)) \<le> m_resultsRemaining cafe_roma \<and>
   Search sample (\<lambda>_. False) sample_world cafe_roma = Inr [(''roma'', []), ([], [])] \<and>
   (\<exists>rs. Search sample (\<lambda>_. False) sample_world cafe_roma =
      Inr (map (GenerateFinalResult sample) rs @ [EmptyResult sample])) \<and>
   Search sample (\<lambda>_. False) sample_world
     (cafe_roma\<lparr>m_pTrieRoot := Some [sample_result 3], m_resultsRemaining := 1\<rparr>) =
     Inr [(''roma'', []), ([], [])]"
proof -
  have h: "1 \<le> m_resultsRemaining cafe_roma"
    "int (length (m_results cafe_roma)) \<le> m_resultsRemaining cafe_roma"
    by (simp_all add: cafe_roma_fields)
  from Search_ends_with_marker [OF h, of sample sample_world]
  have "\<exists>rs. Search sample (\<lambda>_. False) sample_world cafe_roma =
      Inr (map (GenerateFinalResult sample) rs @ [EmptyResult sample])"
    by blast
  with h sample_run(1,3) show ?thesis by blast
qed



section \<open>The skip masks of the whole dictionary\<close>

lemma synonym_step_consumes:
  assumes "m_keywords q \<noteq> []" and "length (m_keywords q) \<le> 31"
  shows "\<exists>q'. synonym_step X c s (q, b, p) = (q', b, p) \<and>
      q' = q\<lparr>m_keywordsToSkipForType := m_keywordsToSkipForType q'\<rparr> \<and>
      (\<forall>ty i. bit (GetKeywordsToSkipForType q' ty) i \<longleftrightarrow>
         bit (GetKeywordsToSkipForType q ty) i \<or>
         ty \<in> set (m_types c) \<and> consumes X (m_keywords q) s i)"
proof -
  let ?tokens = "SplitUniString X (NormalizeAndSimplifyString X (m_name s))"
  from synonym_step_bits [OF assms, of X s c b p undefined, unfolded Let_def]
  obtain q' where
    a: "synonym_step X c s (q, b, p) = (q', b, p)"
      "q' = q\<lparr>m_keywordsToSkipForType := m_keywordsToSkipForType q'\<rparr>"
    and bits: "\<forall>ty i. bit (GetKeywordsToSkipForType q' ty) i \<longleftrightarrow>
         bit (GetKeywordsToSkipForType q ty) i \<or>
         ty \<in> set (m_types c) \<and>
           (take (length ?tokens) (m_keywords q) = ?tokens \<and> i < length ?tokens \<or>
            (length ?tokens \<le> length (m_keywords q) \<and>
             drop (length (m_keywords q) - length ?tokens) (m_keywords q) = ?tokens) \<and>
            length (m_keywords q) - length ?tokens \<le> i \<and> i < length (m_keywords q))"
    by (elim conjE exE) (rule that)
  have "\<forall>ty i. bit (GetKeywordsToSkipForType q' ty) i \<longleftrightarrow>
         bit (GetKeywordsToSkipForType q ty) i \<or>
         ty \<in> set (m_types c) \<and> consumes X (m_keywords q) s i"
    unfolding consumes_def Let_def using bits by (simp add: conj_assoc)
  with a show ?thesis by blast
qed

lemma fold_synonym_step_consumes:
  assumes "m_keywords q \<noteq> []" and "length (m_keywords q) \<le> 31"
  shows "\<exists>q'. fold (synonym_step X c) ss (q, b, p) = (q', b, p) \<and>
      q' = q\<lparr>m_keywordsToSkipForType := m_keywordsToSkipForType q'\<rparr> \<and>
      (\<forall>ty i. bit (GetKeywordsToSkipForType q' ty) i \<longleftrightarrow>
         bit (GetKeywordsToSkipForType q ty) i \<or>
         ty \<in> set (m_types c) \<and> (\<exists>s \<in> set ss. consumes X (m_keywords q) s i))"
  using assms
proof (induction ss arbitrary: q)
  case Nil
  then show ?case by simp
next
  case (Cons s ss)
  from synonym_step_consumes [OF Cons.prems, of X c s b p] obtain q1 where
    q1: "synonym_step X c s (q, b, p) = (q1, b, p)"
      "q1 = q\<lparr>m_keywordsToSkipForType := m_keywordsToSkipForType q1\<rparr>"
      "\<forall>ty i. bit (GetKeywordsToSkipForType q1 ty) i \<longleftrightarrow>
         bit (GetKeywordsToSkipForType q ty) i \<or>
         ty \<in> set (m_types c) \<and> consumes X (m_keywords q) s i"
    by blast
  have k1: "m_keywords q1 = m_keywords q" by (subst q1(2)) simp
  from Cons.IH [of q1] Cons.prems k1 obtain q2 where
    q2: "fold (synonym_step X c) ss (q1, b, p) = (q2, b, p)"
      "q2 = q1\<lparr>m_keywordsToSkipForType := m_keywordsToSkipForType q2\<rparr>"
      "\<forall>ty i. bit (GetKeywordsToSkipForType q2 ty) i \<longleftrightarrow>
         bit (GetKeywordsToSkipForType q1 ty) i \<or>
         ty \<in> set (m_types c) \<and> (\<exists>s \<in> set ss. consumes X (m_keywords q) s i)"
    by auto
  have run: "fold (synonym_step X c) (s # ss) (q, b, p) = (q2, b, p)"
    using q1(1) q2(1) by simp
  have same: "q2 = q\<lparr>m_keywordsToSkipForType := m_keywordsToSkipForType q2\<rparr>"
    by (subst q2(2), subst q1(2)) simp
  have bits: "\<forall>ty i. bit (GetKeywordsToSkipForType q2 ty) i \<longleftrightarrow>
         bit (GetKeywordsToSkipForType q ty) i \<or>
         ty \<in> set (m_types c) \<and> (\<exists>s' \<in> set (s # ss). consumes X (m_keywords q) s' i)"
    using q1(3) q2(3) by auto
  from run same bits show ?case by blast
qed

lemma category_step_consumes:
  assumes "m_keywords q \<noteq> []" and "length (m_keywords q) \<le> 31"
  shows "\<exists>q'. category_step X c q = Inr q' \<and>
      q' = q\<lparr>m_keywordsToSkipForType := m_keywordsToSkipForType q'\<rparr> \<and>
      (\<forall>ty i. bit (GetKeywordsToSkipForType q' ty) i \<longleftrightarrow>
         bit (GetKeywordsToSkipForType q ty) i \<or>
         ty \<in> set (m_types c) \<and> (\<exists>s \<in> set (m_synonyms c). consumes X (m_keywords q) s i))"
proof -
  from fold_synonym_step_consumes [OF assms, of X c "m_synonyms c" "[]"
      "initial_penalty (m_prefix q)"]
  obtain q' where
    a: "fold (synonym_step X c) (m_synonyms c) (q, [], initial_penalty (m_prefix q)) =
        (q', [], initial_penalty (m_prefix q))"
      "q' = q\<lparr>m_keywordsToSkipForType := m_keywordsToSkipForType q'\<rparr>"
      "\<forall>ty i. bit (GetKeywordsToSkipForType q' ty) i \<longleftrightarrow>
         bit (GetKeywordsToSkipForType q ty) i \<or>
         ty \<in> set (m_types c) \<and> (\<exists>s \<in> set (m_synonyms c). consumes X (m_keywords q) s i)"
    by blast
  from a(1) have "category_step X c q = Inr q'" by (simp add: category_step_def)
  with a(2,3) show ?thesis by blast
qed

lemma category_loop_consumes:
  assumes "m_keywords q \<noteq> []" and "length (m_keywords q) \<le> 31"
  shows "\<exists>q'. category_loop X cs q = Inr q' \<and>
      q' = q\<lparr>m_keywordsToSkipForType := m_keywordsToSkipForType q'\<rparr> \<and>
      (\<forall>ty i. bit (GetKeywordsToSkipForType q' ty) i \<longleftrightarrow>
         bit (GetKeywordsToSkipForType q ty) i \<or>
         (\<exists>c \<in> set cs. ty \<in> set (m_types c) \<and>
            (\<exists>s \<in> set (m_synonyms c). consumes X (m_keywords q) s i)))"
  using assms
proof (induction cs arbitrary: q)
  case Nil
  then show ?case by simp
next
  case (Cons c cs)
  from category_step_consumes [OF Cons.prems, of X c] obtain q1 where
    q1: "category_step X c q = Inr q1"
      "q1 = q\<lparr>m_keywordsToSkipForType := m_keywordsToSkipForType q1\<rparr>"
      "\<forall>ty i. bit (GetKeywordsToSkipForType q1 ty) i \<longleftrightarrow>
         bit (GetKeywordsToSkipForType q ty) i \<or>
         ty \<in> set (m_types c) \<and> (\<exists>s \<in> set (m_synonyms c). consumes X (m_keywords q) s i)"
    by blast
  have k1: "m_keywords q1 = m_keywords q" by (subst q1(2)) simp
  from Cons.IH [of q1] Cons.prems k1 obtain q2 where
    q2: "category_loop X cs q1 = Inr q2"
      "q2 = q1\<lparr>m_keywordsToSkipForType := m_keywordsToSkipForType q2\<rparr>"
      "\<forall>ty i. bit (GetKeywordsToSkipForType q2 ty) i \<longleftrightarrow>
         bit (GetKeywordsToSkipForType q1 ty) i \<or>
         (\<exists>c \<in> set cs. ty \<in> set (m_types c) \<and>
            (\<exists>s \<in> set (m_synonyms c). consumes X (m_keywords q) s i))"
    by auto
  have run: "category_loop X (c # cs) q = Inr q2" using q1(1) q2(1) by simp
  have same: "q2 = q\<lparr>m_keywordsToSkipForType := m_keywordsToSkipForType q2\<rparr>"
    by (subst q2(2), subst q1(2)) simp
  have bits: "\<forall>ty i. bit (GetKeywordsToSkipForType q2 ty) i \<longleftrightarrow>
         bit (GetKeywordsToSkipForType q ty) i \<or>
         (\<exists>c' \<in> set (c # cs). ty \<in> set (m_types c') \<and>
            (\<exists>s \<in> set (m_synonyms c'). consumes X (m_keywords q) s i))"
    using q1(3) q2(3) by auto
  from run same bits show ?case by blast
qed

text \<open>
  Claim C9: for a query with at least one keyword (and at most 31, as the constructor
  leaves it), the category phase runs the step for every synonym of every entry of the
  dictionary and changes nothing but the skip masks. A synonym of n tokens consumes the
  first n positions when its tokens equal the first n keywords and the last n positions
  when they equal the last n keywords. After the phase, bit i is set in the mask of a type
  exactly when it was set before or some entry that denotes the type has a synonym that
  consumes position i. The mask of a feature is the union of the masks of its types, and
  the feature processor hands to the matcher exactly the keywords at the positions whose
  bit is clear in the mask of the feature, in their order. The same holds for one entry
  (\<open>category_step\<close>) and for one synonym (\<open>synonym_step\<close>).
\<close>

theorem category_phase_skip_masks:
  assumes "m_keywords q \<noteq> []" and "length (m_keywords q) \<le> 31"
  shows
    "(\<exists>q'. category_phase X q = Inr q' \<and>
        q' = q\<lparr>m_keywordsToSkipForType := m_keywordsToSkipForType q'\<rparr> \<and>
        (\<forall>ty i. bit (GetKeywordsToSkipForType q' ty) i \<longleftrightarrow>
           bit (GetKeywordsToSkipForType q ty) i \<or>
           (\<exists>c \<in> set (case m_pCategories q of None \<Rightarrow> [] | Some cs \<Rightarrow> cs).
              ty \<in> set (m_types c) \<and>
              (\<exists>s \<in> set (m_synonyms c). consumes X (m_keywords q) s i))) \<and>
        (\<forall>i. bit (keywordsSkipMask q' feature) i \<longleftrightarrow>
           (\<exists>ty \<in> set (f_types feature). bit (GetKeywordsToSkipForType q' ty) i)) \<and>
        FeatureProcessor X False feature q' =
          (let matcher = MatchFeature X
                 (map (\<lambda>i. m_keywords q ! i)
                    (filter (\<lambda>i. \<not> bit (keywordsSkipMask q' feature) i)
                       [0 ..< length (m_keywords q)]))
                 (m_prefix q) feature
           in if PrefixMatchScore matcher \<le> GetMaxPrefixMatchScore (int (length (m_prefix q))) \<and>
                 MatchScore matcher \<le> GetMaxKeywordMatchScore \<and>
                 0 \<le> fst (f_textScaleRange feature)
              then AddResult
                     (IntermediateResult_feature feature (BestMatchName matcher)
                        (MatchScore matcher) (fst (f_textScaleRange feature))) q'
              else Inr q')) \<and>
     (\<exists>q'. category_step X c q = Inr q' \<and>
        q' = q\<lparr>m_keywordsToSkipForType := m_keywordsToSkipForType q'\<rparr> \<and>
        (\<forall>ty i. bit (GetKeywordsToSkipForType q' ty) i \<longleftrightarrow>
           bit (GetKeywordsToSkipForType q ty) i \<or>
           ty \<in> set (m_types c) \<and>
           (\<exists>s \<in> set (m_synonyms c). consumes X (m_keywords q) s i))) \<and>
     (\<exists>q'. synonym_step X c s (q, b, p) = (q', b, p) \<and>
        q' = q\<lparr>m_keywordsToSkipForType := m_keywordsToSkipForType q'\<rparr> \<and>
        (\<forall>ty i. bit (GetKeywordsToSkipForType q' ty) i \<longleftrightarrow>
           bit (GetKeywordsToSkipForType q ty) i \<or>
           ty \<in> set (m_types c) \<and> consumes X (m_keywords q) s i)) \<and>
     (consumes X (m_keywords q) s i \<longleftrightarrow>
        take (length (SplitUniString X (NormalizeAndSimplifyString X (m_name s))))
          (m_keywords q) = SplitUniString X (NormalizeAndSimplifyString X (m_name s)) \<and>
        i < length (SplitUniString X (NormalizeAndSimplifyString X (m_name s))) \<or>
        length (SplitUniString X (NormalizeAndSimplifyString X (m_name s)))
          \<le> length (m_keywords q) \<and>
        drop (length (m_keywords q) -
              length (SplitUniString X (NormalizeAndSimplifyString X (m_name s))))
          (m_keywords q) = SplitUniString X (NormalizeAndSimplifyString X (m_name s)) \<and>
        length (m_keywords q) -
          length (SplitUniString X (NormalizeAndSimplifyString X (m_name s))) \<le> i \<and>
        i < length (m_keywords q))"
proof -
  let ?cs = "case m_pCategories q of None \<Rightarrow> [] | Some cs \<Rightarrow> cs"
  have ph: "category_phase X q = category_loop X ?cs q"
    by (cases "m_pCategories q") (simp_all add: category_phase_def)
  from category_loop_consumes [OF assms, of X ?cs] obtain q' where
    q': "category_loop X ?cs q = Inr q'"
      "q' = q\<lparr>m_keywordsToSkipForType := m_keywordsToSkipForType q'\<rparr>"
      "\<forall>ty i. bit (GetKeywordsToSkipForType q' ty) i \<longleftrightarrow>
         bit (GetKeywordsToSkipForType q ty) i \<or>
         (\<exists>c \<in> set ?cs. ty \<in> set (m_types c) \<and>
            (\<exists>s \<in> set (m_synonyms c). consumes X (m_keywords q) s i))"
    by blast
  have k: "m_keywords q' = m_keywords q" "m_prefix q' = m_prefix q"
    by (subst q'(2), simp)+
  have len: "length (m_keywords q) \<le> 32" using assms(2) by simp
  have fp: "FeatureProcessor X False feature q' =
      (let matcher = MatchFeature X
             (map (\<lambda>i. m_keywords q ! i)
                (filter (\<lambda>i. \<not> bit (keywordsSkipMask q' feature) i)
                   [0 ..< length (m_keywords q)]))
             (m_prefix q) feature
       in if PrefixMatchScore matcher \<le> GetMaxPrefixMatchScore (int (length (m_prefix q))) \<and>
             MatchScore matcher \<le> GetMaxKeywordMatchScore \<and>
             0 \<le> fst (f_textScaleRange feature)
          then AddResult
                 (IntermediateResult_feature feature (BestMatchName matcher)
                    (MatchScore matcher) (fst (f_textScaleRange feature))) q'
          else Inr q')"
    unfolding FeatureProcessor_def Let_def ASSERT_def unskipped_keywords_bits [OF len] k
    by auto
  have m: "\<forall>i. bit (keywordsSkipMask q' feature) i \<longleftrightarrow>
      (\<exists>ty \<in> set (f_types feature). bit (GetKeywordsToSkipForType q' ty) i)"
    by (simp add: bit_keywordsSkipMask)
  have c1: "\<exists>q'. category_phase X q = Inr q' \<and>
        q' = q\<lparr>m_keywordsToSkipForType := m_keywordsToSkipForType q'\<rparr> \<and>
        (\<forall>ty i. bit (GetKeywordsToSkipForType q' ty) i \<longleftrightarrow>
           bit (GetKeywordsToSkipForType q ty) i \<or>
           (\<exists>c \<in> set ?cs. ty \<in> set (m_types c) \<and>
              (\<exists>s \<in> set (m_synonyms c). consumes X (m_keywords q) s i))) \<and>
        (\<forall>i. bit (keywordsSkipMask q' feature) i \<longleftrightarrow>
           (\<exists>ty \<in> set (f_types feature). bit (GetKeywordsToSkipForType q' ty) i)) \<and>
        FeatureProcessor X False feature q' =
          (let matcher = MatchFeature X
                 (map (\<lambda>i. m_keywords q ! i)
                    (filter (\<lambda>i. \<not> bit (keywordsSkipMask q' feature) i)
                       [0 ..< length (m_keywords q)]))
                 (m_prefix q) feature
           in if PrefixMatchScore matcher \<le> GetMaxPrefixMatchScore (int (length (m_prefix q))) \<and>
                 MatchScore matcher \<le> GetMaxKeywordMatchScore \<and>
                 0 \<le> fst (f_textScaleRange feature)
              then AddResult
                     (IntermediateResult_feature feature (BestMatchName matcher)
                        (MatchScore matcher) (fst (f_textScaleRange feature))) q'
              else Inr q')"
    using q' m fp unfolding ph by blast
  note c2 = category_step_consumes [OF assms, of X c]
  note c3 = synonym_step_consumes [OF assms, of X c s b p]
  have c4: "consumes X (m_keywords q) s i \<longleftrightarrow>
        take (length (SplitUniString X (NormalizeAndSimplifyString X (m_name s))))
          (m_keywords q) = SplitUniString X (NormalizeAndSimplifyString X (m_name s)) \<and>
        i < length (SplitUniString X (NormalizeAndSimplifyString X (m_name s))) \<or>
        length (SplitUniString X (NormalizeAndSimplifyString X (m_name s)))
          \<le> length (m_keywords q) \<and>
        drop (length (m_keywords q) -
              length (SplitUniString X (NormalizeAndSimplifyString X (m_name s))))
          (m_keywords q) = SplitUniString X (NormalizeAndSimplifyString X (m_name s)) \<and>
        length (m_keywords q) -
          length (SplitUniString X (NormalizeAndSimplifyString X (m_name s))) \<le> i \<and>
        i < length (m_keywords q)"
    by (simp add: consumes_def Let_def)
  show ?thesis
    by (intro conjI) (rule c1, rule c2, rule c3, rule c4)
qed

lemma cafe_roma_category_phase:
  "category_phase sample cafe_roma = Inr (cafe_roma\<lparr>m_keywordsToSkipForType := [7 \<mapsto> 1]\<rparr>)"
  using sample_category_phase [where tr = None and N = 10] by (simp add: cafe_roma_same)

lemma cafe_roma_FeatureProcessor:
  "FeatureProcessor sample False sample_feature
     (cafe_roma\<lparr>m_keywordsToSkipForType := [7 \<mapsto> 1]\<rparr>) =
     Inr (cafe_roma\<lparr>m_keywordsToSkipForType := [7 \<mapsto> 1],
            m_results := [IntermediateResult_feature sample_feature ''roma'' 0 10]\<rparr>)"
  using sample_FeatureProcessor [where tr = None and N = 10] by (simp add: cafe_roma_same)

theorem category_phase_skip_masks_witness:
  "m_keywords cafe_roma \<noteq> [] \<and> length (m_keywords cafe_roma) \<le> 31 \<and>
   m_pCategories cafe_roma = Some [sample_category] \<and>
   consumes sample (m_keywords cafe_roma) sample_synonym 0 \<and>
   category_phase sample cafe_roma = Inr (cafe_roma\<lparr>m_keywordsToSkipForType := [7 \<mapsto> 1]\<rparr>) \<and>
   bit (GetKeywordsToSkipForType (cafe_roma\<lparr>m_keywordsToSkipForType := [7 \<mapsto> 1]\<rparr>) 7) 0 \<and>
   bit (keywordsSkipMask (cafe_roma\<lparr>m_keywordsToSkipForType := [7 \<mapsto> 1]\<rparr>) sample_feature) 0 \<and>
   map (\<lambda>i. m_keywords cafe_roma ! i)
     (filter (\<lambda>i. \<not> bit (keywordsSkipMask
         (cafe_roma\<lparr>m_keywordsToSkipForType := [7 \<mapsto> 1]\<rparr>) sample_feature) i)
        [0 ..< length (m_keywords cafe_roma)]) = [[114, 111, 109, 97]] \<and>
   FeatureProcessor sample False sample_feature
     (cafe_roma\<lparr>m_keywordsToSkipForType := [7 \<mapsto> 1]\<rparr>) =
     Inr (cafe_roma\<lparr>m_keywordsToSkipForType := [7 \<mapsto> 1],
            m_results := [IntermediateResult_feature sample_feature ''roma'' 0 10]\<rparr>)"
proof -
  let ?q' = "cafe_roma\<lparr>m_keywordsToSkipForType := [7 \<mapsto> 1]\<rparr>"
  have k: "m_keywords cafe_roma \<noteq> []" "length (m_keywords cafe_roma) \<le> 31"
    by (simp_all add: cafe_roma_fields)
  have cs: "m_pCategories cafe_roma = Some [sample_category]"
    by (simp add: cafe_roma_fields)
  have con: "consumes sample (m_keywords cafe_roma) sample_synonym 0"
    by (simp add: consumes_def Let_def sample_tokens_cafe cafe_roma_fields)
  from category_phase_skip_masks [OF k, of sample sample_feature sample_category
      sample_synonym "[]" 0 0]
  obtain q' where q': "category_phase sample cafe_roma = Inr q'"
    and bits: "\<forall>ty i. bit (GetKeywordsToSkipForType q' ty) i \<longleftrightarrow>
        bit (GetKeywordsToSkipForType cafe_roma ty) i \<or>
        (\<exists>c \<in> set (case m_pCategories cafe_roma of None \<Rightarrow> [] | Some cs \<Rightarrow> cs).
           ty \<in> set (m_types c) \<and>
           (\<exists>s \<in> set (m_synonyms c). consumes sample (m_keywords cafe_roma) s i))"
    and mask: "\<forall>i. bit (keywordsSkipMask q' sample_feature) i \<longleftrightarrow>
        (\<exists>ty \<in> set (f_types sample_feature). bit (GetKeywordsToSkipForType q' ty) i)"
    by blast
  from q' have eq: "q' = ?q'" by (simp add: cafe_roma_category_phase)
  have b7: "bit (GetKeywordsToSkipForType ?q' 7) 0"
    using bits con unfolding eq by (simp add: cs sample_category_def)
  have bm: "bit (keywordsSkipMask ?q' sample_feature) 0"
    using mask b7 unfolding eq by (simp add: sample_feature_def)
  have nb: "\<not> bit (keywordsSkipMask ?q' sample_feature) (Suc 0)"
    by (simp add: keywordsSkipMask_def GetKeywordsToSkipForType_def sample_feature_def)
  have sel: "map (\<lambda>i. m_keywords cafe_roma ! i)
     (filter (\<lambda>i. \<not> bit (keywordsSkipMask ?q' sample_feature) i)
        [0 ..< length (m_keywords cafe_roma)]) = [[114, 111, 109, 97]]"
    using bm nb by (simp add: cafe_roma_fields upt_rec)
  from k cs con cafe_roma_category_phase b7 bm sel cafe_roma_FeatureProcessor
  show ?thesis by blast
qed

end
